theory Spec2Isabelle
  imports Complex_Main "HOL-Library.Word" "HOL-Library.Log_Nat"
begin

section \<open>Compile-time parameters (ShaderTypes.h)\<close>

text \<open>
  The shader is compiled with a set of preprocessor constants; the values in
  ShaderTypes.h are placeholders that are overridden when the shader is loaded.
  They are therefore a parameter of every function that uses them. All of them
  are used in unsigned 32-bit arithmetic and comparisons.
\<close>

type_synonym uint = "32 word"

record Config =
  LEVEL_COUNT :: uint
  HASHTABLE_SIZE :: uint
  MAX_PROBING_ATTEMPTS :: uint
  REQUEST_LOWRES_LOD :: nat

definition defaultConfig :: Config where
  "defaultConfig =
     \<lparr> LEVEL_COUNT = 10, HASHTABLE_SIZE = 128, MAX_PROBING_ATTEMPTS = 10,
       REQUEST_LOWRES_LOD = 1 \<rparr>"

text \<open>The page states of a brick (enum BrickIDFlags), as the values stored in the
  brick meta buffer.\<close>

definition BI_MISSING :: uint where "BI_MISSING = 0"
definition BI_CHILD_EMPTY :: uint where "BI_CHILD_EMPTY = 1"
definition BI_EMPTY :: uint where "BI_EMPTY = 2"
definition BI_FLAG_COUNT :: uint where "BI_FLAG_COUNT = 3"

section \<open>The miss-report hash table (GPUHashtable.h)\<close>

text \<open>
  A device buffer is a function from an unsigned index to the value stored there.
  The table proper are the slots below \<open>HASHTABLE_SIZE\<close>. The compare-and-exchange
  is taken in its sequential meaning: it stores the new value and succeeds exactly
  when the slot holds the expected value \<open>0xFFFFFFFF\<close>, and otherwise yields the
  value found.
\<close>

type_synonym buffer = "uint \<Rightarrow> uint"

definition emptyMarker :: uint where
  "emptyMarker = 0xFFFFFFFF"

definition simpleHash :: "uint \<Rightarrow> uint" where
  "simpleHash v = v * 2654435761"

text \<open>The probing loop of \<open>reportMissingBrick\<close>, from probe offset \<open>i\<close> on.\<close>

function probeLoop :: "Config \<Rightarrow> uint \<Rightarrow> uint \<Rightarrow> uint \<Rightarrow> buffer \<Rightarrow> buffer" where
  "probeLoop c brickIndex hashIndex i atomicBuffer =
     (if i < MAX_PROBING_ATTEMPTS c then
        (let slot = (hashIndex + i) mod HASHTABLE_SIZE c in
         if atomicBuffer slot = emptyMarker then atomicBuffer(slot := brickIndex)
         else if atomicBuffer slot = brickIndex then atomicBuffer
         else probeLoop c brickIndex hashIndex (i + 1) atomicBuffer)
      else atomicBuffer)"
  by pat_completeness auto
termination
proof (relation "measure (\<lambda>(c, b, h, i, a). unat (MAX_PROBING_ATTEMPTS c) - unat i)")
  show "wf (measure (\<lambda>(c, b, h, i, a). unat (MAX_PROBING_ATTEMPTS c) - unat i))"
    by simp
next
  fix c :: Config and brickIndex hashIndex i :: uint and atomicBuffer :: buffer and x
  assume lt: "i < MAX_PROBING_ATTEMPTS c"
  have "unat (i + 1) = Suc (unat i)"
    using lt by unat_arith
  moreover have "unat i < unat (MAX_PROBING_ATTEMPTS c)"
    using lt by (simp add: word_less_nat_alt)
  ultimately show "((c, brickIndex, hashIndex, i + 1, atomicBuffer),
                    (c, brickIndex, hashIndex, i, atomicBuffer))
        \<in> measure (\<lambda>(c, b, h, i, a). unat (MAX_PROBING_ATTEMPTS c) - unat i)"
    by simp
qed

definition reportMissingBrick :: "Config \<Rightarrow> uint \<Rightarrow> buffer \<Rightarrow> buffer" where
  "reportMissingBrick c brickIndex atomicBuffer =
     probeLoop c brickIndex (simpleHash brickIndex mod HASHTABLE_SIZE c) 0 atomicBuffer"

text \<open>A sequence of reports, one call after the other, in the order of the list.\<close>

fun reportAll :: "Config \<Rightarrow> uint list \<Rightarrow> buffer \<Rightarrow> buffer" where
  "reportAll c [] atomicBuffer = atomicBuffer"
| "reportAll c (b # bs) atomicBuffer = reportAll c bs (reportMissingBrick c b atomicBuffer)"

text \<open>
  The slots of the table in ascending order, and the values a scan of the table
  reads from them.
\<close>

definition slots :: "Config \<Rightarrow> uint list" where
  "slots c = map of_nat [0..<unat (HASHTABLE_SIZE c)]"

definition scan :: "Config \<Rightarrow> buffer \<Rightarrow> uint list" where
  "scan c atomicBuffer = map atomicBuffer (slots c)"

text \<open>The table as the host leaves it before a pass: every slot holds the empty
  marker.\<close>

definition emptyTable :: buffer where
  "emptyTable = (\<lambda>_. emptyMarker)"

text \<open>Eleven brick indices whose hashes are all 0 modulo 128.\<close>

definition clusterIndices :: "uint list" where
  "clusterIndices = [0, 128, 256, 384, 512, 640, 768, 896, 1024, 1152, 1280]"

text \<open>
  The invariant of a table that is filled by reports only: no index is recorded
  in two slots, and reporting a recorded index again changes nothing.
\<close>

definition tableInv :: "Config \<Rightarrow> buffer \<Rightarrow> bool" where
  "tableInv c t \<longleftrightarrow>
     (\<forall>s s'. s < HASHTABLE_SIZE c \<and> s' < HASHTABLE_SIZE c \<and> t s = t s' \<and> t s \<noteq> emptyMarker
         \<longrightarrow> s = s') \<and>
     (\<forall>s. s < HASHTABLE_SIZE c \<and> t s \<noteq> emptyMarker \<longrightarrow> reportMissingBrick c (t s) t = t)"

text \<open>The slots of the table that hold a recorded index.\<close>

definition occupied :: "Config \<Rightarrow> buffer \<Rightarrow> uint set" where
  "occupied c t = {s. s < HASHTABLE_SIZE c \<and> t s \<noteq> emptyMarker}"

section \<open>Brick addressing and resolution (VolumeAtlas.h)\<close>

text \<open>
  The floating-point computations are not interpreted. A value of type \<open>float3\<close> is
  a value of a type parameter \<open>'v\<close>, and the floating-point expressions of the source
  are the fields of a record of operations:
  \<^item> \<open>clampUnit v\<close> is \<open>clamp(v, float3(0), float3(1))\<close>;
  \<^item> \<open>truncMul a b\<close> is \<open>uint3(a * b)\<close>;
  \<^item> \<open>cornerDiv u l\<close> is \<open>float3(u) / l\<close>;
  \<^item> \<open>brickExit\<close> and \<open>normCoordsToPoolCoords\<close> are the functions of these names,
    which compute on floating-point values only.
  All integer arithmetic, every buffer access and the control flow are modelled
  as written.
\<close>

type_synonym uint3 = "uint \<times> uint \<times> uint"
type_synonym uint4 = "uint \<times> uint \<times> uint \<times> uint"

record 'v LevelData =
  bricksX :: uint
  bricksXTimesBricksY :: uint
  prevBricks :: uint
  fractionalBrickLayout :: 'v

type_synonym 'v BrickCorners = "'v \<times> 'v"

record 'v PoolBrickInformation =
  poolEntryCoords :: 'v
  poolExitCoords :: 'v
  normToPoolScale :: 'v
  normToPoolTrans :: 'v

record 'v FloatOps =
  clampUnit :: "'v \<Rightarrow> 'v"
  truncMul :: "'v \<Rightarrow> 'v \<Rightarrow> uint3"
  cornerDiv :: "uint3 \<Rightarrow> 'v \<Rightarrow> 'v"
  brickExit :: "'v \<Rightarrow> 'v \<Rightarrow> 'v \<times> 'v \<Rightarrow> 'v BrickCorners \<Rightarrow> 'v"
  normCoordsToPoolCoords :: "'v \<Rightarrow> 'v \<Rightarrow> 'v BrickCorners \<Rightarrow> uint \<Rightarrow> 'v PoolBrickInformation"

fun getBrickIndex :: "uint4 \<Rightarrow> (uint \<Rightarrow> 'v LevelData) \<Rightarrow> uint" where
  "getBrickIndex (x, y, z, w) levelArray =
     (let level = levelArray w
      in prevBricks level + x + y * bricksX level + z * bricksXTimesBricksY level)"

definition computeBrickCoords ::
  "'v FloatOps \<Rightarrow> 'v \<Rightarrow> (uint \<Rightarrow> 'v LevelData) \<Rightarrow> uint \<Rightarrow> uint4" where
  "computeBrickCoords fl normEntryCoords levelArray lod =
     (let level = levelArray lod;
          (x, y, z) = truncMul fl normEntryCoords (fractionalBrickLayout level)
      in (x, y, z, lod))"

fun getBrickCorners :: "'v FloatOps \<Rightarrow> uint4 \<Rightarrow> (uint \<Rightarrow> 'v LevelData) \<Rightarrow> 'v BrickCorners" where
  "getBrickCorners fl (x, y, z, w) levelArray =
     (cornerDiv fl (x, y, z) (fractionalBrickLayout (levelArray w)),
      cornerDiv fl (x + 1, y + 1, z + 1) (fractionalBrickLayout (levelArray w)))"

text \<open>The residency state read for a position at a level (the three lines that
  recur in \<open>getBrick\<close>: coordinates, index, meta entry).\<close>

definition brickInfoAt ::
  "'v FloatOps \<Rightarrow> 'v \<Rightarrow> buffer \<Rightarrow> (uint \<Rightarrow> 'v LevelData) \<Rightarrow> uint \<Rightarrow> uint" where
  "brickInfoAt fl normEntryCoords brickMeta levelArray lod =
     brickMeta (getBrickIndex (computeBrickCoords fl normEntryCoords levelArray lod) levelArray)"

record 'v BrickInformation =
  LOD :: uint
  brickIndex :: uint
  empty :: bool
  substitute :: bool
  normExitCoords :: 'v
  poolBrickInfo :: "'v PoolBrickInformation option"

text \<open>
  The do-while loop that looks for a lower resolution. It has no bound of its own:
  it ends when a brick that is not missing is found. The result is the state of
  the variables \<open>info.LOD\<close>, \<open>brickCoords\<close>, \<open>brickIndex\<close>, \<open>brickInfo\<close> and
  \<open>lastBrickIndex\<close> after the loop; \<open>None\<close> means that the loop does not end.
\<close>

partial_function (option) lookForLowerRes ::
  "'v FloatOps \<Rightarrow> 'v \<Rightarrow> buffer \<Rightarrow> (uint \<Rightarrow> 'v LevelData) \<Rightarrow> uint \<Rightarrow> uint
     \<Rightarrow> (uint \<times> uint4 \<times> uint \<times> uint \<times> uint) option" where
  "lookForLowerRes fl normEntryCoords brickMeta levelArray lod brickIdx =
     (let lastBrickIndex = brickIdx;
          lod' = lod + 1;
          brickCoords = computeBrickCoords fl normEntryCoords levelArray lod';
          brickIdx' = getBrickIndex brickCoords levelArray;
          brickInf = brickMeta brickIdx'
      in if brickInf = BI_MISSING
         then lookForLowerRes fl normEntryCoords brickMeta levelArray lod' brickIdx'
         else Some (lod', brickCoords, brickIdx', brickInf, lastBrickIndex))"

text \<open>The same loop cut off after \<open>n\<close> iterations of its body: \<open>None\<close> when the
  loop condition still holds after the \<open>n\<close>-th iteration.\<close>

fun lookForLowerResUpTo ::
  "nat \<Rightarrow> 'v FloatOps \<Rightarrow> 'v \<Rightarrow> buffer \<Rightarrow> (uint \<Rightarrow> 'v LevelData) \<Rightarrow> uint \<Rightarrow> uint
     \<Rightarrow> (uint \<times> uint4 \<times> uint \<times> uint \<times> uint) option" where
  "lookForLowerResUpTo 0 fl normEntryCoords brickMeta levelArray lod brickIdx = None"
| "lookForLowerResUpTo (Suc n) fl normEntryCoords brickMeta levelArray lod brickIdx =
     (let lastBrickIndex = brickIdx;
          lod' = lod + 1;
          brickCoords = computeBrickCoords fl normEntryCoords levelArray lod';
          brickIdx' = getBrickIndex brickCoords levelArray;
          brickInf = brickMeta brickIdx'
      in if brickInf = BI_MISSING
         then lookForLowerResUpTo n fl normEntryCoords brickMeta levelArray lod' brickIdx'
         else Some (lod', brickCoords, brickIdx', brickInf, lastBrickIndex))"

text \<open>The branch taken on a cache miss (the block after the comment "cache miss"):
  the new hash buffer and the variables \<open>info.LOD\<close>, \<open>brickCoords\<close>, \<open>brickInfo\<close>.\<close>

definition cacheMiss ::
  "Config \<Rightarrow> 'v FloatOps \<Rightarrow> 'v \<Rightarrow> buffer \<Rightarrow> (uint \<Rightarrow> 'v LevelData) \<Rightarrow> buffer
     \<Rightarrow> uint \<Rightarrow> uint \<Rightarrow> (buffer \<times> uint \<times> uint4 \<times> uint) option" where
  "cacheMiss c fl normEntryCoords brickMeta levelArray hashBuffer iLOD brickIdx =
     (let hashBuffer1 = reportMissingBrick c brickIdx hashBuffer;
          startLOD = iLOD
      in case lookForLowerRes fl normEntryCoords brickMeta levelArray iLOD brickIdx of
           None \<Rightarrow> None
         | Some (lod, brickCoords, brickIdx', brickInf, lastBrickIndex) \<Rightarrow>
             Some (if REQUEST_LOWRES_LOD c = 1 \<and> startLOD < lod
                   then reportMissingBrick c lastBrickIndex hashBuffer1
                   else hashBuffer1,
                   lod, brickCoords, brickInf))"

text \<open>The for loop over the lower resolutions of an empty brick; the state is
  \<open>brickCoords\<close>, \<open>brickInfo\<close> and \<open>info.LOD\<close>.\<close>

function lowResLoop ::
  "Config \<Rightarrow> 'v FloatOps \<Rightarrow> 'v \<Rightarrow> buffer \<Rightarrow> (uint \<Rightarrow> 'v LevelData) \<Rightarrow> uint
     \<Rightarrow> uint4 \<times> uint \<times> uint \<Rightarrow> uint4 \<times> uint \<times> uint" where
  "lowResLoop c fl normEntryCoords brickMeta levelArray lowResLOD (brickCoords, brickInf, lod) =
     (if lowResLOD < LEVEL_COUNT c then
        (let lowResBrickCoords = computeBrickCoords fl normEntryCoords levelArray lowResLOD;
             lowResBrickIndex = getBrickIndex lowResBrickCoords levelArray;
             lowResBrickInfo = brickMeta lowResBrickIndex
         in if lowResBrickInfo = BI_CHILD_EMPTY
            then lowResLoop c fl normEntryCoords brickMeta levelArray (lowResLOD + 1)
                   (lowResBrickCoords, lowResBrickInfo, lowResLOD)
            else (brickCoords, brickInf, lod))
      else (brickCoords, brickInf, lod))"
  by pat_completeness auto
termination
proof (relation "measure (\<lambda>(c, fl, p, m, la, l, st). unat (LEVEL_COUNT c) - unat l)")
  show "wf (measure (\<lambda>(c, fl, p, m, la, l, st). unat (LEVEL_COUNT c) - unat (l::uint)))"
    by simp
next
  fix c :: Config and lowResLOD :: uint
  fix fl :: "'v FloatOps" and normEntryCoords :: 'v and brickMeta :: buffer
  fix levelArray :: "uint \<Rightarrow> 'v LevelData" and brickCoords :: uint4 and brickInf lod :: uint
  fix x xa xb
  assume lt: "lowResLOD < LEVEL_COUNT c"
  have "unat (lowResLOD + 1) = Suc (unat lowResLOD)"
    using lt by unat_arith
  moreover have "unat lowResLOD < unat (LEVEL_COUNT c)"
    using lt by (simp add: word_less_nat_alt)
  ultimately show "((c, fl, normEntryCoords, brickMeta, levelArray, lowResLOD + 1, x, xb, lowResLOD),
                    (c, fl, normEntryCoords, brickMeta, levelArray, lowResLOD, brickCoords, brickInf, lod))
        \<in> measure (\<lambda>(c, fl, p, m, la, l, st). unat (LEVEL_COUNT c) - unat l)"
    by simp
qed

definition getBrick ::
  "Config \<Rightarrow> 'v FloatOps \<Rightarrow> 'v \<Rightarrow> uint \<Rightarrow> 'v \<Rightarrow> 'v \<times> 'v \<Rightarrow> buffer \<Rightarrow> (uint \<Rightarrow> 'v LevelData)
     \<Rightarrow> buffer \<Rightarrow> bool \<Rightarrow> ('v BrickInformation \<times> buffer) option" where
  "getBrick c fl normEntryCoords0 iLOD direction cubeBounds brickMeta levelArray hashBuffer
       dontRequest =
    (let normEntryCoords = clampUnit fl normEntryCoords0;
         brickCoords = computeBrickCoords fl normEntryCoords levelArray iLOD;
         brickIdx = getBrickIndex brickCoords levelArray;
         brickInf = brickMeta brickIdx;
         subst = (brickInf = BI_MISSING)
     in case (if \<not> dontRequest \<and> brickInf = BI_MISSING
              then cacheMiss c fl normEntryCoords brickMeta levelArray hashBuffer iLOD brickIdx
              else Some (hashBuffer, iLOD, brickCoords, brickInf)) of
          None \<Rightarrow> None
        | Some (hashBuffer', lod, brickCoords1, brickInf1) \<Rightarrow>
            (let isEmpty = (brickInf1 \<le> BI_EMPTY);
                 (brickCoords2, brickInf2, lod2) =
                    (if isEmpty
                     then lowResLoop c fl normEntryCoords brickMeta levelArray (lod + 1)
                            (brickCoords1, brickInf1, lod)
                     else (brickCoords1, brickInf1, lod));
                 corners = getBrickCorners fl brickCoords2 levelArray;
                 exitCoords = brickExit fl normEntryCoords direction cubeBounds corners
             in Some (\<lparr> LOD = lod2, brickIndex = brickIdx, empty = isEmpty,
                        substitute = subst, normExitCoords = exitCoords,
                        poolBrickInfo =
                          (if isEmpty then None
                           else Some (normCoordsToPoolCoords fl normEntryCoords exitCoords
                                        corners brickInf2)) \<rparr>,
                      hashBuffer')))"

section \<open>A small hierarchy for concrete runs\<close>

text \<open>
  Four levels along one axis with 8, 4, 2 and 1 bricks. Floating-point values are
  stood for by natural numbers in thousandths, so the position 600 is 0.6; it
  lies in the bricks with the indices 4, 10, 13 and 14 of the levels 0 to 3.
\<close>

definition exampleConfig :: Config where
  "exampleConfig =
     \<lparr> LEVEL_COUNT = 4, HASHTABLE_SIZE = 128, MAX_PROBING_ATTEMPTS = 10,
       REQUEST_LOWRES_LOD = 1 \<rparr>"

definition exampleOps :: "nat FloatOps" where
  "exampleOps =
     \<lparr> clampUnit = (\<lambda>v. min v 1000),
       truncMul = (\<lambda>a b. (of_nat (a * b div 1000), 0, 0)),
       cornerDiv = (\<lambda>(x, y, z) l. unat x * 1000 div l),
       brickExit = (\<lambda>pointInBrick dir cubeBounds (c0, c1). c1),
       normCoordsToPoolCoords = (\<lambda>entry exit corners brickInf.
          \<lparr> poolEntryCoords = entry, poolExitCoords = exit,
            normToPoolScale = 1, normToPoolTrans = 0 \<rparr>) \<rparr>"

definition exampleLevels :: "uint \<Rightarrow> nat LevelData" where
  "exampleLevels l =
     (if l = 0 then \<lparr> bricksX = 8, bricksXTimesBricksY = 8, prevBricks = 0,
                       fractionalBrickLayout = 8 \<rparr>
      else if l = 1 then \<lparr> bricksX = 4, bricksXTimesBricksY = 4, prevBricks = 8,
                            fractionalBrickLayout = 4 \<rparr>
      else if l = 2 then \<lparr> bricksX = 2, bricksXTimesBricksY = 2, prevBricks = 12,
                            fractionalBrickLayout = 2 \<rparr>
      else \<lparr> bricksX = 1, bricksXTimesBricksY = 1, prevBricks = 14,
              fractionalBrickLayout = 1 \<rparr>)"

text \<open>At the position 0.6: level 0 empty, levels 1 and 2 child-empty, level 3
  resident; every other brick missing.\<close>

definition emptyRegionMeta :: buffer where
  "emptyRegionMeta i =
     (if i = 4 then BI_EMPTY else if i = 10 then BI_CHILD_EMPTY
      else if i = 13 then BI_CHILD_EMPTY else if i = 14 then 3 else BI_MISSING)"

text \<open>At the position 0.6: levels 0 and 1 missing, levels 2 and 3 resident.\<close>

definition missingFineMeta :: buffer where
  "missingFineMeta i = (if i = 13 then 5 else if i = 14 then 3 else BI_MISSING)"

text \<open>What \<open>getBrick\<close> returns for the position 0.6 at level 0 of the empty region.\<close>

definition emptyRegionResult :: "nat BrickInformation" where
  "emptyRegionResult =
     \<lparr> LOD = 2, brickIndex = 4, empty = True, substitute = False,
       normExitCoords = 1000, poolBrickInfo = None \<rparr>"

section \<open>Single-precision arithmetic\<close>



















section \<open>Properties of the miss-report hash table\<close>

declare probeLoop.simps [simp del]
declare lowResLoop.simps [simp del]

subsection \<open>One step of the probing loop\<close>

lemma probeLoop_done:
  "\<not> i < MAX_PROBING_ATTEMPTS c \<Longrightarrow> probeLoop c b h i buf = buf"
  by (subst probeLoop.simps) simp

lemma probeLoop_store:
  "i < MAX_PROBING_ATTEMPTS c \<Longrightarrow> buf ((h + i) mod HASHTABLE_SIZE c) = emptyMarker
   \<Longrightarrow> probeLoop c b h i buf = buf((h + i) mod HASHTABLE_SIZE c := b)"
  by (subst probeLoop.simps) simp

lemma probeLoop_present:
  "i < MAX_PROBING_ATTEMPTS c \<Longrightarrow> buf ((h + i) mod HASHTABLE_SIZE c) \<noteq> emptyMarker
   \<Longrightarrow> buf ((h + i) mod HASHTABLE_SIZE c) = b
   \<Longrightarrow> probeLoop c b h i buf = buf"
  by (subst probeLoop.simps) simp

lemma probeLoop_next:
  "i < MAX_PROBING_ATTEMPTS c \<Longrightarrow> buf ((h + i) mod HASHTABLE_SIZE c) \<noteq> emptyMarker
   \<Longrightarrow> buf ((h + i) mod HASHTABLE_SIZE c) \<noteq> b
   \<Longrightarrow> probeLoop c b h i buf = probeLoop c b h (i + 1) buf"
  by (subst probeLoop.simps) simp

lemma word_succ_le: "(i::uint) < m \<Longrightarrow> i + 1 \<le> k \<Longrightarrow> i \<le> k"
  by unat_arith

lemma word_le_succ_cases: "(i::uint) < m \<Longrightarrow> i \<le> k \<Longrightarrow> k = i \<or> i + 1 \<le> k"
  by unat_arith

subsection \<open>What a call can change\<close>

lemma probeLoop_cases:
  "probeLoop c b h i buf = buf \<or>
   (\<exists>s. buf s = emptyMarker \<and> probeLoop c b h i buf = buf(s := b))"
proof (induction c b h i buf rule: probeLoop.induct)
  case (1 c b h i buf)
  show ?case
  proof (cases "i < MAX_PROBING_ATTEMPTS c")
    case False
    then show ?thesis by (simp add: probeLoop_done)
  next
    case True
    let ?slot = "(h + i) mod HASHTABLE_SIZE c"
    consider (e) "buf ?slot = emptyMarker"
      | (f) "buf ?slot \<noteq> emptyMarker" "buf ?slot = b"
      | (o) "buf ?slot \<noteq> emptyMarker" "buf ?slot \<noteq> b" by blast
    then show ?thesis
    proof cases
      case e
      from probeLoop_store[where buf=buf and b=b, OF True e] e show ?thesis by blast
    next
      case f
      from probeLoop_present[where buf=buf, OF True f] show ?thesis by simp
    next
      case o
      from "1.IH"[OF True refl o] probeLoop_next[where buf=buf and b=b, OF True o]
      show ?thesis by simp
    qed
  qed
qed

lemma probeLoop_keeps:
  "buf s \<noteq> emptyMarker \<Longrightarrow> probeLoop c b h i buf s = buf s"
  using probeLoop_cases[of c b h i buf] by (auto simp: fun_upd_def)

lemma probeLoop_marker: "probeLoop c emptyMarker h i buf = buf"
  using probeLoop_cases[of c emptyMarker h i buf] by auto

text \<open>
  Claim C10. A call never overwrites an occupied slot: every slot that holds a
  value other than the empty marker before the call holds the same value after
  it. The only change a call can make is to store the reported index in one slot
  that held the empty marker.
\<close>

theorem reportMissingBrick_keeps_occupied:
  "(\<forall>s. atomicBuffer s \<noteq> emptyMarker \<longrightarrow>
        reportMissingBrick c b atomicBuffer s = atomicBuffer s) \<and>
   (reportMissingBrick c b atomicBuffer = atomicBuffer \<or>
    (\<exists>s. atomicBuffer s = emptyMarker \<and>
         reportMissingBrick c b atomicBuffer = atomicBuffer(s := b)))"
  unfolding reportMissingBrick_def
  using probeLoop_cases[of c b _ 0 atomicBuffer] probeLoop_keeps[of atomicBuffer _ c b _ 0]
  by blast

theorem reportMissingBrick_keeps_occupied_witness:
  "((\<lambda>_. emptyMarker)(10 := 7) :: buffer) 10 \<noteq> emptyMarker \<and>
   reportMissingBrick defaultConfig 42 ((\<lambda>_. emptyMarker)(10 := 7)) 10 = 7"
proof -
  let ?buf = "(\<lambda>_. emptyMarker)(10 := 7) :: buffer"
  have h: "?buf 10 \<noteq> emptyMarker"
    by (simp add: emptyMarker_def)
  from reportMissingBrick_keeps_occupied[of ?buf defaultConfig 42]
  have "\<forall>s. ?buf s \<noteq> emptyMarker \<longrightarrow> reportMissingBrick defaultConfig 42 ?buf s = ?buf s"
    by (rule conjunct1)
  then have "?buf 10 \<noteq> emptyMarker \<longrightarrow> reportMissingBrick defaultConfig 42 ?buf 10 = ?buf 10"
    by (rule spec)
  with h show ?thesis by simp
qed

subsection \<open>A full probe window\<close>

lemma probeLoop_all_other:
  "(\<forall>k. i \<le> k \<and> k < MAX_PROBING_ATTEMPTS c \<longrightarrow>
        buf ((h + k) mod HASHTABLE_SIZE c) \<noteq> emptyMarker \<and>
        buf ((h + k) mod HASHTABLE_SIZE c) \<noteq> b)
   \<Longrightarrow> probeLoop c b h i buf = buf"
proof (induction c b h i buf rule: probeLoop.induct)
  case (1 c b h i buf)
  show ?case
  proof (cases "i < MAX_PROBING_ATTEMPTS c")
    case False
    then show ?thesis by (simp add: probeLoop_done)
  next
    case True
    let ?slot = "(h + i) mod HASHTABLE_SIZE c"
    from "1.prems" True have o: "buf ?slot \<noteq> emptyMarker" "buf ?slot \<noteq> b"
      by auto
    have rest: "\<forall>k. i + 1 \<le> k \<and> k < MAX_PROBING_ATTEMPTS c \<longrightarrow>
        buf ((h + k) mod HASHTABLE_SIZE c) \<noteq> emptyMarker \<and>
        buf ((h + k) mod HASHTABLE_SIZE c) \<noteq> b"
      using "1.prems" word_succ_le[OF True] by blast
    have "probeLoop c b h (i + 1) buf = buf"
      by (rule "1.IH"[OF True refl o rest])
    with probeLoop_next[where buf=buf and b=b, OF True o] show ?thesis by simp
  qed
qed

text \<open>
  Claim C6. If every probed slot (base \<open>simpleHash index mod HASHTABLE_SIZE\<close>,
  offsets \<open>0\<close> to \<open>MAX_PROBING_ATTEMPTS - 1\<close>) holds a value that is neither the
  empty marker nor the reported index, the call returns with the whole buffer
  unchanged: the report is dropped.
\<close>

theorem reportMissingBrick_dropped:
  assumes "\<forall>k. k < MAX_PROBING_ATTEMPTS c \<longrightarrow>
      atomicBuffer ((simpleHash b mod HASHTABLE_SIZE c + k) mod HASHTABLE_SIZE c) \<noteq> emptyMarker \<and>
      atomicBuffer ((simpleHash b mod HASHTABLE_SIZE c + k) mod HASHTABLE_SIZE c) \<noteq> b"
  shows "reportMissingBrick c b atomicBuffer = atomicBuffer"
  unfolding reportMissingBrick_def
  by (rule probeLoop_all_other) (use assms in blast)

lemma unat_slot:
  fixes h k n :: uint
  assumes "unat h + unat k < 2 ^ 32"
  shows "unat ((h + k) mod n) = (unat h + unat k) mod unat n"
proof -
  have "unat (h + k) = unat h + unat k"
    using assms unat_add_lem[of h k] by simp
  then show ?thesis by (simp add: unat_mod)
qed

lemma hash_42: "simpleHash 42 mod HASHTABLE_SIZE defaultConfig = 10"
  by (simp add: simpleHash_def defaultConfig_def)

lemma window_42:
  fixes k :: uint
  assumes "k < 10"
  shows "10 \<le> (10 + k) mod 128 \<and> (10 + k) mod 128 < 20"
proof -
  from assms have k: "unat k < 10" by (simp add: word_less_nat_alt)
  then have "unat ((10 + k) mod 128) = (unat (10::uint) + unat k) mod unat (128::uint)"
    by (intro unat_slot) simp
  with k have "unat ((10 + k) mod 128) = 10 + unat k" by simp
  with k show ?thesis by (simp add: word_le_nat_alt word_less_nat_alt)
qed

text \<open>The ten slots probed for index 42 are the slots 10 to 19; when all of them
  hold the index 7, the report of 42 changes nothing.\<close>

theorem reportMissingBrick_dropped_witness:
  "reportMissingBrick defaultConfig 42 (\<lambda>s. if 10 \<le> s \<and> s < 20 then 7 else emptyMarker)
     = (\<lambda>s. if 10 \<le> s \<and> s < 20 then 7 else emptyMarker)"
proof -
  let ?buf = "(\<lambda>s. if 10 \<le> s \<and> s < 20 then 7 else emptyMarker) :: buffer"
  let ?slot = "\<lambda>k. (simpleHash 42 mod HASHTABLE_SIZE defaultConfig + k)
                    mod HASHTABLE_SIZE defaultConfig"
  have "\<forall>k. k < MAX_PROBING_ATTEMPTS defaultConfig \<longrightarrow>
           ?buf (?slot k) \<noteq> emptyMarker \<and> ?buf (?slot k) \<noteq> 42"
  proof (intro allI impI)
    fix k :: uint
    assume "k < MAX_PROBING_ATTEMPTS defaultConfig"
    then have "k < 10" by (simp add: defaultConfig_def)
    from window_42[OF this] have "?buf ((10 + k) mod 128) = 7" by simp
    then show "?buf (?slot k) \<noteq> emptyMarker \<and> ?buf (?slot k) \<noteq> 42"
      unfolding hash_42 by (simp add: defaultConfig_def emptyMarker_def)
  qed
  then show ?thesis by (rule reportMissingBrick_dropped)
qed

subsection \<open>Repeated reports\<close>

lemma probeLoop_idem:
  "probeLoop c b h i (probeLoop c b h i buf) = probeLoop c b h i buf"
proof (induction c b h i buf rule: probeLoop.induct)
  case (1 c b h i buf)
  show ?case
  proof (cases "i < MAX_PROBING_ATTEMPTS c")
    case False
    then show ?thesis by (simp add: probeLoop_done)
  next
    case True
    let ?slot = "(h + i) mod HASHTABLE_SIZE c"
    consider (e) "buf ?slot = emptyMarker"
      | (f) "buf ?slot \<noteq> emptyMarker" "buf ?slot = b"
      | (o) "buf ?slot \<noteq> emptyMarker" "buf ?slot \<noteq> b" by blast
    then show ?thesis
    proof cases
      case e
      note r = probeLoop_store[where buf=buf and b=b, OF True e]
      have "probeLoop c b h i (buf(?slot := b)) = buf(?slot := b)"
      proof (cases "b = emptyMarker")
        case True
        then show ?thesis by (simp add: probeLoop_marker)
      next
        case False
        have "(buf(?slot := b)) ?slot \<noteq> emptyMarker" "(buf(?slot := b)) ?slot = b"
          using False by simp_all
        then show ?thesis by (rule probeLoop_present[where buf="buf(?slot := b)", OF True])
      qed
      then show ?thesis unfolding r .
    next
      case f
      from probeLoop_present[where buf=buf, OF True f] show ?thesis by simp
    next
      case o
      let ?r = "probeLoop c b h (i + 1) buf"
      note eq = probeLoop_next[where buf=buf and b=b, OF True o]
      have "?r ?slot = buf ?slot" using o by (simp add: probeLoop_keeps)
      with o have o': "?r ?slot \<noteq> emptyMarker" "?r ?slot \<noteq> b" by simp_all
      have "probeLoop c b h (i + 1) ?r = ?r" by (rule "1.IH"[OF True refl o])
      with probeLoop_next[where buf="?r" and b=b, OF True o']
      have "probeLoop c b h i ?r = ?r" by simp
      then show ?thesis unfolding eq .
    qed
  qed
qed

lemma probeLoop_stable:
  "b \<noteq> emptyMarker \<Longrightarrow> \<forall>s. buf s \<noteq> emptyMarker \<longrightarrow> buf' s = buf s \<Longrightarrow>
   probeLoop c b h i buf = buf \<Longrightarrow> probeLoop c b h i buf' = buf'"
proof (induction c b h i buf rule: probeLoop.induct)
  case (1 c b h i buf)
  show ?case
  proof (cases "i < MAX_PROBING_ATTEMPTS c")
    case False
    then show ?thesis by (rule probeLoop_done)
  next
    case True
    let ?slot = "(h + i) mod HASHTABLE_SIZE c"
    consider (e) "buf ?slot = emptyMarker"
      | (f) "buf ?slot \<noteq> emptyMarker" "buf ?slot = b"
      | (o) "buf ?slot \<noteq> emptyMarker" "buf ?slot \<noteq> b" by blast
    then show ?thesis
    proof cases
      case e
      have "buf ?slot = probeLoop c b h i buf ?slot" by (simp only: "1.prems"(3))
      also have "\<dots> = b" by (simp only: probeLoop_store[where buf=buf and b=b, OF True e] fun_upd_same)
      finally have "b = emptyMarker" using e by simp
      with "1.prems"(1) show ?thesis by blast
    next
      case f
      from "1.prems"(2) have "buf ?slot \<noteq> emptyMarker \<longrightarrow> buf' ?slot = buf ?slot" by (rule spec)
      with f have "buf' ?slot \<noteq> emptyMarker" "buf' ?slot = b" by simp_all
      then show ?thesis by (rule probeLoop_present[where buf=buf', OF True])
    next
      case o
      from "1.prems"(2) have "buf ?slot \<noteq> emptyMarker \<longrightarrow> buf' ?slot = buf ?slot" by (rule spec)
      with o have o': "buf' ?slot \<noteq> emptyMarker" "buf' ?slot \<noteq> b" by simp_all
      have unchanged: "probeLoop c b h (i + 1) buf = buf"
        by (rule trans[OF probeLoop_next[where buf=buf and b=b, OF True o, symmetric] "1.prems"(3)])
      have "probeLoop c b h (i + 1) buf' = buf'"
        by (rule "1.IH"[OF True refl o(1) o(2) "1.prems"(1,2) unchanged])
      then show ?thesis using probeLoop_next[where buf=buf' and b=b, OF True o'] by simp
    qed
  qed
qed

lemma report_idem: "reportMissingBrick c b (reportMissingBrick c b t) = reportMissingBrick c b t"
  unfolding reportMissingBrick_def by (rule probeLoop_idem)

lemma report_stable:
  "b \<noteq> emptyMarker \<Longrightarrow> \<forall>s. t s \<noteq> emptyMarker \<longrightarrow> t' s = t s \<Longrightarrow>
   reportMissingBrick c b t = t \<Longrightarrow> reportMissingBrick c b t' = t'"
  unfolding reportMissingBrick_def by (rule probeLoop_stable)

lemma report_marker: "reportMissingBrick c emptyMarker t = t"
  unfolding reportMissingBrick_def by (rule probeLoop_marker)

lemma report_cases:
  "reportMissingBrick c b t = t \<or>
   (\<exists>s. t s = emptyMarker \<and> reportMissingBrick c b t = t(s := b))"
  unfolding reportMissingBrick_def by (rule probeLoop_cases)

lemma report_keeps: "t s \<noteq> emptyMarker \<Longrightarrow> reportMissingBrick c b t s = t s"
  unfolding reportMissingBrick_def by (rule probeLoop_keeps)

lemma reportAll_keeps: "t s \<noteq> emptyMarker \<Longrightarrow> reportAll c bs t s = t s"
  by (induction bs arbitrary: t) (simp_all add: report_keeps)

lemma tableInv_init:
  "\<forall>s. s < HASHTABLE_SIZE c \<longrightarrow> t s = emptyMarker \<Longrightarrow> tableInv c t"
  unfolding tableInv_def by blast

lemma tableInv_unique:
  "tableInv c t \<Longrightarrow> s < HASHTABLE_SIZE c \<Longrightarrow> s' < HASHTABLE_SIZE c \<Longrightarrow> t s = t s'
   \<Longrightarrow> t s \<noteq> emptyMarker \<Longrightarrow> s = s'"
  unfolding tableInv_def by blast

lemma tableInv_settled:
  "tableInv c t \<Longrightarrow> s < HASHTABLE_SIZE c \<Longrightarrow> t s \<noteq> emptyMarker
   \<Longrightarrow> reportMissingBrick c (t s) t = t"
  unfolding tableInv_def by blast

lemma tableInv_step:
  assumes inv: "tableInv c t"
  shows "tableInv c (reportMissingBrick c j t)"
proof -
  let ?t' = "reportMissingBrick c j t"
  from report_cases[of c j t] show ?thesis
  proof
    assume "?t' = t"
    then show ?thesis using inv by (simp only:)
  next
    assume "\<exists>s. t s = emptyMarker \<and> ?t' = t(s := j)"
    then obtain s0 where s0: "t s0 = emptyMarker" and t': "?t' = t(s0 := j)" by blast
    show ?thesis
    proof (cases "j = emptyMarker")
      case True
      then have "?t' = t" by (simp only: report_marker)
      then show ?thesis using inv by (simp only:)
    next
      case jne: False
      have keep: "\<forall>x. t x \<noteq> emptyMarker \<longrightarrow> ?t' x = t x"
        by (simp add: report_keeps)
      have changed: "?t' \<noteq> t"
      proof
        assume "?t' = t"
        then have "?t' s0 = t s0" by simp
        with t' s0 jne show False by simp
      qed
      have fresh: "\<And>s. s < HASHTABLE_SIZE c \<Longrightarrow> t s \<noteq> j"
      proof
        fix s assume s: "s < HASHTABLE_SIZE c" and ts: "t s = j"
        from ts jne have "t s \<noteq> emptyMarker" by simp
        from tableInv_settled[OF inv s this] ts have "reportMissingBrick c j t = t"
          by (simp only:)
        with changed show False by contradiction
      qed
      have i2: "\<forall>s. s < HASHTABLE_SIZE c \<and> ?t' s \<noteq> emptyMarker \<longrightarrow>
                  reportMissingBrick c (?t' s) ?t' = ?t'"
      proof (intro allI impI)
        fix s assume s: "s < HASHTABLE_SIZE c \<and> ?t' s \<noteq> emptyMarker"
        show "reportMissingBrick c (?t' s) ?t' = ?t'"
        proof (cases "s = s0")
          case True
          then have "?t' s = j" by (simp add: t')
          then show ?thesis by (simp only: report_idem)
        next
          case False
          then have eq: "?t' s = t s" by (simp add: t')
          with s have ne: "t s \<noteq> emptyMarker" by simp
          from s have "s < HASHTABLE_SIZE c" by simp
          from tableInv_settled[OF inv this ne]
          have "reportMissingBrick c (t s) t = t" .
          from report_stable[OF ne keep this] have "reportMissingBrick c (t s) ?t' = ?t'" .
          then show ?thesis by (simp only: eq)
        qed
      qed
      have i1: "\<forall>s s'. s < HASHTABLE_SIZE c \<and> s' < HASHTABLE_SIZE c \<and> ?t' s = ?t' s' \<and>
                  ?t' s \<noteq> emptyMarker \<longrightarrow> s = s'"
      proof (intro allI impI)
        fix s s'
        assume a: "s < HASHTABLE_SIZE c \<and> s' < HASHTABLE_SIZE c \<and> ?t' s = ?t' s' \<and>
                  ?t' s \<noteq> emptyMarker"
        show "s = s'"
        proof (cases "s = s0"; cases "s' = s0")
          assume "s = s0" "s' = s0" then show ?thesis by simp
        next
          assume "s = s0" "s' \<noteq> s0"
          with a t' have "t s' = j" by (metis fun_upd_apply)
          with fresh a show ?thesis by blast
        next
          assume "s \<noteq> s0" "s' = s0"
          with a t' have "t s = j" by (metis fun_upd_apply)
          with fresh a show ?thesis by blast
        next
          assume "s \<noteq> s0" "s' \<noteq> s0"
          with a t' have "t s = t s'" "t s \<noteq> emptyMarker" by (metis fun_upd_apply)+
          with tableInv_unique[OF inv, of s s'] a show ?thesis by blast
        qed
      qed
      from i1 i2 show ?thesis unfolding tableInv_def by blast
    qed
  qed
qed

lemma tableInv_all: "tableInv c t \<Longrightarrow> tableInv c (reportAll c bs t)"
  by (induction bs arbitrary: t) (simp_all add: tableInv_step)

subsection \<open>Scanning the table\<close>

lemma unat_of_nat_small:
  "k < unat (n :: uint) \<Longrightarrow> unat (of_nat k :: uint) = k"
proof -
  assume k: "k < unat n"
  have "unat n < 2 ^ 32" using unsigned_less[of n, where 'a=nat] by simp
  with k have "k < 2 ^ 32" by simp
  then show ?thesis by (simp add: unat_of_nat)
qed

lemma slots_set: "set (slots c) = {s. s < HASHTABLE_SIZE c}"
proof (intro set_eqI iffI)
  fix x assume "x \<in> set (slots c)"
  then obtain k where k: "k < unat (HASHTABLE_SIZE c)" and x: "x = of_nat k"
    by (auto simp: slots_def)
  from unat_of_nat_small[OF k] k x have "unat x < unat (HASHTABLE_SIZE c)" by simp
  then show "x \<in> {s. s < HASHTABLE_SIZE c}" by (simp add: word_less_nat_alt)
next
  fix x assume "x \<in> {s. s < HASHTABLE_SIZE c}"
  then have "unat x \<in> set [0..<unat (HASHTABLE_SIZE c)]" by (simp add: word_less_nat_alt)
  then have "(of_nat (unat x) :: uint) \<in> of_nat ` set [0..<unat (HASHTABLE_SIZE c)]"
    by (rule imageI)
  moreover have "(of_nat (unat x) :: uint) = x" by simp
  ultimately show "x \<in> set (slots c)" unfolding slots_def set_map by (simp only:)
qed

lemma slots_distinct: "distinct (slots c)"
proof -
  have "inj_on (of_nat :: nat \<Rightarrow> uint) (set [0..<unat (HASHTABLE_SIZE c)])"
  proof (rule inj_onI)
    fix a b assume "a \<in> set [0..<unat (HASHTABLE_SIZE c)]" "b \<in> set [0..<unat (HASHTABLE_SIZE c)]"
      and eq: "(of_nat a :: uint) = of_nat b"
    then have a: "a < unat (HASHTABLE_SIZE c)" and b: "b < unat (HASHTABLE_SIZE c)" by simp_all
    have ua: "unat (of_nat a :: uint) = a" using a by (rule unat_of_nat_small)
    have ub: "unat (of_nat b :: uint) = b" using b by (rule unat_of_nat_small)
    from eq have "unat (of_nat a :: uint) = unat (of_nat b :: uint)" by (rule arg_cong)
    then show "a = b" by (simp only: ua ub)
  qed
  then show ?thesis unfolding slots_def by (simp add: distinct_map)
qed

lemma count_scan:
  "count_list (scan c t) i = card {s. s < HASHTABLE_SIZE c \<and> t s = i}"
proof -
  have "filter ((=) i \<circ> t) (slots c) = filter (\<lambda>s. t s = i) (slots c)"
    by (rule filter_cong) auto
  then have "count_list (scan c t) i = length (filter (\<lambda>s. t s = i) (slots c))"
    unfolding scan_def count_list_eq_length_filter filter_map length_map by (simp only:)
  also have "\<dots> = card ({s. t s = i} \<inter> set (slots c))"
    by (rule distinct_length_filter[OF slots_distinct])
  also have "{s. t s = i} \<inter> set (slots c) = {s. s < HASHTABLE_SIZE c \<and> t s = i}"
    by (auto simp: slots_set)
  finally show ?thesis .
qed

lemma scan_mem: "i \<in> set (scan c t) \<longleftrightarrow> (\<exists>s. s < HASHTABLE_SIZE c \<and> t s = i)"
  unfolding scan_def using slots_set[of c] by auto

lemma count_scan_one:
  assumes inv: "tableInv c t" and ne: "i \<noteq> emptyMarker" and mem: "i \<in> set (scan c t)"
  shows "count_list (scan c t) i = 1"
proof -
  from mem obtain s where s: "s < HASHTABLE_SIZE c" "t s = i" by (auto simp: scan_mem)
  have "{x. x < HASHTABLE_SIZE c \<and> t x = i} = {s}"
  proof (intro set_eqI iffI)
    fix x assume "x \<in> {x. x < HASHTABLE_SIZE c \<and> t x = i}"
    then have x: "x < HASHTABLE_SIZE c" "t x = i" by simp_all
    from tableInv_unique[OF inv x(1) s(1)] x s ne have "x = s" by simp
    then show "x \<in> {s}" by simp
  next
    fix x assume "x \<in> {s}" with s show "x \<in> {x. x < HASHTABLE_SIZE c \<and> t x = i}" by simp
  qed
  then show ?thesis by (simp add: count_scan)
qed

lemma reportAll_replicate:
  "reportMissingBrick c i t = t \<Longrightarrow> reportAll c (replicate n i) t = t"
  by (induction n) simp_all

text \<open>
  Claim C5. Reporting is idempotent. Take a table that was filled with the empty
  marker and then received any sequence of reports. If a scan of it finds the
  brick index \<open>i\<close>, an index other than the empty marker, then reporting \<open>i\<close>
  again, any number of times, leaves the table unchanged, and a scan finds \<open>i\<close>
  exactly once.
\<close>

theorem reportMissingBrick_idempotent:
  assumes init: "\<forall>s. s < HASHTABLE_SIZE c \<longrightarrow> atomicBuffer s = emptyMarker"
    and recorded: "i \<in> set (scan c (reportAll c bs atomicBuffer))"
    and index: "i \<noteq> emptyMarker"
  shows "reportMissingBrick c i (reportAll c bs atomicBuffer) = reportAll c bs atomicBuffer \<and>
         reportAll c (replicate n i) (reportAll c bs atomicBuffer) = reportAll c bs atomicBuffer \<and>
         count_list (scan c (reportAll c bs atomicBuffer)) i = 1"
proof -
  let ?t = "reportAll c bs atomicBuffer"
  have inv: "tableInv c ?t" by (rule tableInv_all[OF tableInv_init[OF init]])
  from recorded obtain s where s: "s < HASHTABLE_SIZE c" "?t s = i" by (auto simp: scan_mem)
  from s index have "?t s \<noteq> emptyMarker" by simp
  from tableInv_settled[OF inv s(1) this] s have again: "reportMissingBrick c i ?t = ?t"
    by (simp only:)
  from again reportAll_replicate[OF again] count_scan_one[OF inv index recorded]
  show ?thesis by blast
qed

subsection \<open>How many reports are certain to be recorded\<close>

lemma probeLoop_outcome:
  "(\<exists>k. i \<le> k \<and> k < MAX_PROBING_ATTEMPTS c \<and>
        probeLoop c b h i buf ((h + k) mod HASHTABLE_SIZE c) = b) \<or>
   (\<forall>k. i \<le> k \<and> k < MAX_PROBING_ATTEMPTS c \<longrightarrow>
        buf ((h + k) mod HASHTABLE_SIZE c) \<noteq> emptyMarker)"
proof (induction c b h i buf rule: probeLoop.induct)
  case (1 c b h i buf)
  show ?case
  proof (cases "i < MAX_PROBING_ATTEMPTS c")
    case False
    then show ?thesis by auto
  next
    case True
    let ?slot = "(h + i) mod HASHTABLE_SIZE c"
    consider (e) "buf ?slot = emptyMarker"
      | (f) "buf ?slot \<noteq> emptyMarker" "buf ?slot = b"
      | (o) "buf ?slot \<noteq> emptyMarker" "buf ?slot \<noteq> b" by blast
    then show ?thesis
    proof cases
      case e
      have "probeLoop c b h i buf ?slot = b"
        by (simp only: probeLoop_store[where buf=buf and b=b, OF True e] fun_upd_same)
      with True show ?thesis by blast
    next
      case f
      have "probeLoop c b h i buf ?slot = b"
        by (simp only: probeLoop_present[where buf=buf, OF True f] f(2))
      with True show ?thesis by blast
    next
      case o
      note eq = probeLoop_next[where buf=buf and b=b, OF True o]
      from "1.IH"[OF True refl o]
      consider (found) k where "i + 1 \<le> k" "k < MAX_PROBING_ATTEMPTS c"
           "probeLoop c b h (i + 1) buf ((h + k) mod HASHTABLE_SIZE c) = b"
        | (none) "\<forall>k. i + 1 \<le> k \<and> k < MAX_PROBING_ATTEMPTS c \<longrightarrow>
            buf ((h + k) mod HASHTABLE_SIZE c) \<noteq> emptyMarker"
        by blast
      then show ?thesis
      proof cases
        case found
        from found(1) have "i \<le> k" by (rule word_succ_le[OF True])
        moreover from found(3)
        have "probeLoop c b h i buf ((h + k) mod HASHTABLE_SIZE c) = b" by (simp only: eq)
        ultimately show ?thesis using found(2) by blast
      next
        case none
        have "\<forall>k. i \<le> k \<and> k < MAX_PROBING_ATTEMPTS c \<longrightarrow>
            buf ((h + k) mod HASHTABLE_SIZE c) \<noteq> emptyMarker"
        proof (intro allI impI)
          fix k assume k: "i \<le> k \<and> k < MAX_PROBING_ATTEMPTS c"
          with word_le_succ_cases[OF True, of k] have "k = i \<or> i + 1 \<le> k" by blast
          then show "buf ((h + k) mod HASHTABLE_SIZE c) \<noteq> emptyMarker"
          proof
            assume "k = i" with o(1) show ?thesis by simp
          next
            assume "i + 1 \<le> k" with none k show ?thesis by blast
          qed
        qed
        then show ?thesis by blast
      qed
    qed
  qed
qed

lemma nat_mod_shift_le:
  fixes a k1 k2 n :: nat
  assumes "k1 \<le> k2" "k2 < n" "(a + k1) mod n = (a + k2) mod n"
  shows "k1 = k2"
proof -
  from assms(1) have "a + k1 \<le> a + k2" by simp
  with assms(3) have "n dvd (a + k2) - (a + k1)"
    using mod_eq_dvd_iff_nat[of "a + k1" "a + k2" n] by simp
  then have "n dvd k2 - k1" by simp
  moreover from assms(2) have "k2 - k1 < n" by simp
  ultimately have "k2 - k1 = 0" by (meson dvd_imp_le not_less zero_less_iff_neq_zero)
  with assms(1) show ?thesis by simp
qed

lemma nat_mod_shift_inj:
  fixes a k1 k2 n :: nat
  assumes "k1 < n" "k2 < n" "(a + k1) mod n = (a + k2) mod n"
  shows "k1 = k2"
proof (cases "k1 \<le> k2")
  case True
  from nat_mod_shift_le[OF True assms(2,3)] show ?thesis .
next
  case False
  then have "k2 \<le> k1" by simp
  from nat_mod_shift_le[OF this assms(1) assms(3)[symmetric]] show ?thesis by simp
qed

lemma occupied_report:
  "card (occupied c (reportMissingBrick c j t)) \<le> Suc (card (occupied c t))"
proof -
  from report_cases[of c j t] show ?thesis
  proof
    assume "reportMissingBrick c j t = t"
    then show ?thesis by simp
  next
    assume "\<exists>s. t s = emptyMarker \<and> reportMissingBrick c j t = t(s := j)"
    then obtain s0 where t': "reportMissingBrick c j t = t(s0 := j)" by blast
    have "occupied c (t(s0 := j)) \<subseteq> insert s0 (occupied c t)"
      by (auto simp: occupied_def)
    then have "card (occupied c (t(s0 := j))) \<le> card (insert s0 (occupied c t))"
      by (intro card_mono) simp_all
    also have "\<dots> \<le> Suc (card (occupied c t))" by (rule card_insert_le_m1) simp_all
    finally show ?thesis by (simp only: t')
  qed
qed

text \<open>When the sizes fit, the probed slots of one report are pairwise different
  slots of the table.\<close>

lemma window_slot:
  fixes h :: uint
  assumes fit: "unat (HASHTABLE_SIZE c) + unat (MAX_PROBING_ATTEMPTS c) \<le> 2 ^ 32"
    and h: "h < HASHTABLE_SIZE c" and n: "n < unat (MAX_PROBING_ATTEMPTS c)"
  shows "(of_nat n :: uint) < MAX_PROBING_ATTEMPTS c"
    and "(h + of_nat n) mod HASHTABLE_SIZE c < HASHTABLE_SIZE c"
    and "unat ((h + of_nat n) mod HASHTABLE_SIZE c) = (unat h + n) mod unat (HASHTABLE_SIZE c)"
proof -
  have un: "unat (of_nat n :: uint) = n" using n by (rule unat_of_nat_small)
  with n show "(of_nat n :: uint) < MAX_PROBING_ATTEMPTS c" by (simp add: word_less_nat_alt)
  from h have "0 < HASHTABLE_SIZE c" by unat_arith
  then show "(h + of_nat n) mod HASHTABLE_SIZE c < HASHTABLE_SIZE c"
    by (rule word_mod_less_divisor)
  from h have "unat h < unat (HASHTABLE_SIZE c)" by (simp add: word_less_nat_alt)
  with n fit have "unat h + unat (of_nat n :: uint) < 2 ^ 32" by (simp add: un)
  from unat_slot[OF this] show
    "unat ((h + of_nat n) mod HASHTABLE_SIZE c) = (unat h + n) mod unat (HASHTABLE_SIZE c)"
    by (simp only: un)
qed

lemma full_window:
  fixes h :: uint
  assumes fit: "unat (HASHTABLE_SIZE c) + unat (MAX_PROBING_ATTEMPTS c) \<le> 2 ^ 32"
    and le: "MAX_PROBING_ATTEMPTS c \<le> HASHTABLE_SIZE c"
    and h: "h < HASHTABLE_SIZE c"
    and full: "\<forall>k. k < MAX_PROBING_ATTEMPTS c \<longrightarrow> t ((h + k) mod HASHTABLE_SIZE c) \<noteq> emptyMarker"
  shows "unat (MAX_PROBING_ATTEMPTS c) \<le> card (occupied c t)"
proof -
  let ?f = "\<lambda>n. (h + of_nat n) mod HASHTABLE_SIZE c"
  let ?N = "{0..<unat (MAX_PROBING_ATTEMPTS c)}"
  from le have le': "unat (MAX_PROBING_ATTEMPTS c) \<le> unat (HASHTABLE_SIZE c)"
    by (simp add: word_le_nat_alt)
  have inj: "inj_on ?f ?N"
  proof (rule inj_onI)
    fix a b assume a: "a \<in> ?N" and b: "b \<in> ?N" and eq: "?f a = ?f b"
    from a b have an: "a < unat (MAX_PROBING_ATTEMPTS c)" and bn: "b < unat (MAX_PROBING_ATTEMPTS c)"
      by simp_all
    from eq have "unat (?f a) = unat (?f b)" by (rule arg_cong)
    then have "(unat h + a) mod unat (HASHTABLE_SIZE c) = (unat h + b) mod unat (HASHTABLE_SIZE c)"
      by (simp only: window_slot(3)[OF fit h an] window_slot(3)[OF fit h bn])
    moreover from an bn le' have "a < unat (HASHTABLE_SIZE c)" "b < unat (HASHTABLE_SIZE c)"
      by simp_all
    ultimately show "a = b" by (rule nat_mod_shift_inj[rotated 2])
  qed
  have sub: "?f ` ?N \<subseteq> occupied c t"
  proof
    fix s assume "s \<in> ?f ` ?N"
    then obtain n where n: "n < unat (MAX_PROBING_ATTEMPTS c)" and s: "s = ?f n" by auto
    from window_slot(1)[OF fit h n] full have "t (?f n) \<noteq> emptyMarker" by blast
    with window_slot(2)[OF fit h n] s show "s \<in> occupied c t" by (simp add: occupied_def)
  qed
  have "unat (MAX_PROBING_ATTEMPTS c) = card ?N" by simp
  also have "\<dots> = card (?f ` ?N)" by (rule card_image[OF inj, symmetric])
  also have "\<dots> \<le> card (occupied c t)" by (rule card_mono[OF _ sub]) simp
  finally show ?thesis .
qed

lemma report_present:
  assumes fit: "unat (HASHTABLE_SIZE c) + unat (MAX_PROBING_ATTEMPTS c) \<le> 2 ^ 32"
    and le: "MAX_PROBING_ATTEMPTS c \<le> HASHTABLE_SIZE c"
    and room: "card (occupied c t) < unat (MAX_PROBING_ATTEMPTS c)"
  shows "j \<in> set (scan c (reportMissingBrick c j t))"
proof -
  let ?h = "simpleHash j mod HASHTABLE_SIZE c"
  from room have "0 < unat (MAX_PROBING_ATTEMPTS c)" by simp
  then have "0 < MAX_PROBING_ATTEMPTS c" by (simp add: word_less_nat_alt)
  with le have pos: "0 < HASHTABLE_SIZE c" by simp
  then have h: "?h < HASHTABLE_SIZE c" by (rule word_mod_less_divisor)
  from probeLoop_outcome[of 0 c j ?h t] show ?thesis
  proof
    assume "\<exists>k. 0 \<le> k \<and> k < MAX_PROBING_ATTEMPTS c \<and>
        probeLoop c j ?h 0 t ((?h + k) mod HASHTABLE_SIZE c) = j"
    then obtain k where "reportMissingBrick c j t ((?h + k) mod HASHTABLE_SIZE c) = j"
      unfolding reportMissingBrick_def by blast
    moreover have "(?h + k) mod HASHTABLE_SIZE c < HASHTABLE_SIZE c"
      using pos by (rule word_mod_less_divisor)
    ultimately show ?thesis unfolding scan_mem by blast
  next
    assume "\<forall>k. 0 \<le> k \<and> k < MAX_PROBING_ATTEMPTS c \<longrightarrow>
        t ((?h + k) mod HASHTABLE_SIZE c) \<noteq> emptyMarker"
    then have "\<forall>k. k < MAX_PROBING_ATTEMPTS c \<longrightarrow> t ((?h + k) mod HASHTABLE_SIZE c) \<noteq> emptyMarker"
      by simp
    from full_window[OF fit le h this] room show ?thesis by simp
  qed
qed

lemma reportAll_present:
  assumes fit: "unat (HASHTABLE_SIZE c) + unat (MAX_PROBING_ATTEMPTS c) \<le> 2 ^ 32"
    and le: "MAX_PROBING_ATTEMPTS c \<le> HASHTABLE_SIZE c"
  shows "card (occupied c t) + length bs \<le> unat (MAX_PROBING_ATTEMPTS c) \<Longrightarrow>
         emptyMarker \<notin> set bs \<Longrightarrow> i \<in> set bs \<Longrightarrow> i \<in> set (scan c (reportAll c bs t))"
proof (induction bs arbitrary: t)
  case Nil
  then show ?case by simp
next
  case (Cons b bs)
  let ?t1 = "reportMissingBrick c b t"
  from Cons.prems(1) occupied_report[of c b t]
  have room1: "card (occupied c ?t1) + length bs \<le> unat (MAX_PROBING_ATTEMPTS c)" by simp
  from Cons.prems(2) have nm: "emptyMarker \<notin> set bs" and b: "b \<noteq> emptyMarker" by auto
  show ?case
  proof (cases "i \<in> set bs")
    case True
    from Cons.IH[OF room1 nm True] show ?thesis by simp
  next
    case False
    with Cons.prems(3) have ib: "i = b" by simp
    from Cons.prems(1) have "card (occupied c t) < unat (MAX_PROBING_ATTEMPTS c)" by simp
    from report_present[OF fit le this, of b]
    obtain s where s: "s < HASHTABLE_SIZE c" "?t1 s = b" unfolding scan_mem by blast
    with b have "?t1 s \<noteq> emptyMarker" by simp
    from reportAll_keeps[where t="?t1" and s=s, OF this, of c bs] s(2)
    have "reportAll c bs ?t1 s = b" by simp
    with s(1) ib show ?thesis unfolding scan_mem by auto
  qed
qed

text \<open>
  Claim C2, as amended. Let the table be filled with the empty marker, let
  \<open>MAX_PROBING_ATTEMPTS\<close> be at most \<open>HASHTABLE_SIZE\<close> and let their sum fit into
  32 bits. After at most \<open>MAX_PROBING_ATTEMPTS\<close> reports of brick indices (none
  of them the empty marker), a scan of the table finds every reported index
  exactly once.
\<close>

theorem reportAll_below_probe_limit:
  assumes init: "\<forall>s. s < HASHTABLE_SIZE c \<longrightarrow> atomicBuffer s = emptyMarker"
    and fit: "unat (HASHTABLE_SIZE c) + unat (MAX_PROBING_ATTEMPTS c) \<le> 2 ^ 32"
    and le: "MAX_PROBING_ATTEMPTS c \<le> HASHTABLE_SIZE c"
    and load: "length bs \<le> unat (MAX_PROBING_ATTEMPTS c)"
    and indices: "emptyMarker \<notin> set bs"
  shows "\<forall>i \<in> set bs. count_list (scan c (reportAll c bs atomicBuffer)) i = 1"
proof
  fix i assume i: "i \<in> set bs"
  from init have "occupied c atomicBuffer = {}" by (auto simp: occupied_def)
  with load have "card (occupied c atomicBuffer) + length bs \<le> unat (MAX_PROBING_ATTEMPTS c)"
    by simp
  from reportAll_present[OF fit le this indices i]
  have mem: "i \<in> set (scan c (reportAll c bs atomicBuffer))" .
  have inv: "tableInv c (reportAll c bs atomicBuffer)"
    by (rule tableInv_all[OF tableInv_init[OF init]])
  from i indices have "i \<noteq> emptyMarker" by auto
  from count_scan_one[OF inv this mem]
  show "count_list (scan c (reportAll c bs atomicBuffer)) i = 1" .
qed

theorem reportAll_below_probe_limit_witness:
  "unat (HASHTABLE_SIZE defaultConfig) + unat (MAX_PROBING_ATTEMPTS defaultConfig) \<le> 2 ^ 32 \<and>
   MAX_PROBING_ATTEMPTS defaultConfig \<le> HASHTABLE_SIZE defaultConfig \<and>
   length [42, 7, 170 :: uint] \<le> unat (MAX_PROBING_ATTEMPTS defaultConfig) \<and>
   emptyMarker \<notin> set [42, 7, 170] \<and>
   count_list (scan defaultConfig (reportAll defaultConfig [42, 7, 170] emptyTable)) 42 = 1 \<and>
   count_list (scan defaultConfig (reportAll defaultConfig [42, 7, 170] emptyTable)) 7 = 1 \<and>
   count_list (scan defaultConfig (reportAll defaultConfig [42, 7, 170] emptyTable)) 170 = 1"
proof -
  have init: "\<forall>s. s < HASHTABLE_SIZE defaultConfig \<longrightarrow> emptyTable s = emptyMarker"
    by (simp add: emptyTable_def)
  have fit: "unat (HASHTABLE_SIZE defaultConfig) + unat (MAX_PROBING_ATTEMPTS defaultConfig)
               \<le> 2 ^ 32"
    by (simp add: defaultConfig_def)
  have le: "MAX_PROBING_ATTEMPTS defaultConfig \<le> HASHTABLE_SIZE defaultConfig"
    by (simp add: defaultConfig_def)
  have load: "length [42, 7, 170 :: uint] \<le> unat (MAX_PROBING_ATTEMPTS defaultConfig)"
    by (simp add: defaultConfig_def)
  have indices: "emptyMarker \<notin> set [42, 7, 170]"
    by (simp add: emptyMarker_def)
  from reportAll_below_probe_limit[OF init fit le load indices]
  have "count_list (scan defaultConfig (reportAll defaultConfig [42, 7, 170] emptyTable)) 42 = 1"
    "count_list (scan defaultConfig (reportAll defaultConfig [42, 7, 170] emptyTable)) 7 = 1"
    "count_list (scan defaultConfig (reportAll defaultConfig [42, 7, 170] emptyTable)) 170 = 1"
    by simp_all
  with fit le load indices show ?thesis by blast
qed

subsection \<open>Concrete tables\<close>

lemma example_table:
  "reportAll defaultConfig [42, 7] emptyTable = emptyTable(10 := 42, 87 := 7)"
  by (simp add: reportMissingBrick_def probeLoop.simps simpleHash_def defaultConfig_def
        emptyTable_def emptyMarker_def)

theorem reportMissingBrick_idempotent_witness:
  "42 \<in> set (scan defaultConfig (reportAll defaultConfig [42, 7] emptyTable)) \<and>
   42 \<noteq> emptyMarker \<and>
   reportMissingBrick defaultConfig 42 (reportAll defaultConfig [42, 7] emptyTable)
     = reportAll defaultConfig [42, 7] emptyTable \<and>
   reportAll defaultConfig (replicate 3 42) (reportAll defaultConfig [42, 7] emptyTable)
     = reportAll defaultConfig [42, 7] emptyTable \<and>
   count_list (scan defaultConfig (reportAll defaultConfig [42, 7] emptyTable)) 42 = 1"
proof -
  have init: "\<forall>s. s < HASHTABLE_SIZE defaultConfig \<longrightarrow> emptyTable s = emptyMarker"
    by (simp add: emptyTable_def)
  have "(10 :: uint) < HASHTABLE_SIZE defaultConfig"
    by (simp add: defaultConfig_def)
  moreover have "reportAll defaultConfig [42, 7] emptyTable 10 = 42"
    by (simp only: example_table) simp
  ultimately have recorded: "42 \<in> set (scan defaultConfig (reportAll defaultConfig [42, 7] emptyTable))"
    unfolding scan_mem by blast
  have index: "(42 :: uint) \<noteq> emptyMarker" by (simp add: emptyMarker_def)
  from reportMissingBrick_idempotent[OF init recorded index, of 3] recorded index
  show ?thesis by blast
qed

lemma cluster_table:
  "reportAll defaultConfig clusterIndices emptyTable =
     emptyTable(0 := 0, 1 := 128, 2 := 256, 3 := 384, 4 := 512, 5 := 640, 6 := 768,
                7 := 896, 8 := 1024, 9 := 1152)"
  by (simp add: clusterIndices_def reportMissingBrick_def probeLoop.simps simpleHash_def
        defaultConfig_def emptyTable_def emptyMarker_def)

text \<open>
  Claim C2 as stated fails. The eleven indices 0, 128, \<dots>, 1280 are pairwise
  distinct, fewer than \<open>HASHTABLE_SIZE - MAX_PROBING_ATTEMPTS = 118\<close>, and all hash
  to slot 0. The first ten fill the slots 0 to 9, and the report of 1280 is
  dropped: a scan does not find it.
\<close>

theorem reportAll_threshold_counterexample:
  "length clusterIndices \<le> unat (HASHTABLE_SIZE defaultConfig - MAX_PROBING_ATTEMPTS defaultConfig) \<and>
   distinct clusterIndices \<and>
   1280 \<in> set clusterIndices \<and>
   count_list (scan defaultConfig (reportAll defaultConfig clusterIndices emptyTable)) 1280 = 0"
proof -
  have "1280 \<notin> set (scan defaultConfig (reportAll defaultConfig clusterIndices emptyTable))"
    unfolding scan_mem cluster_table by (simp add: emptyTable_def emptyMarker_def)
  then have "count_list (scan defaultConfig (reportAll defaultConfig clusterIndices emptyTable)) 1280 = 0"
    by simp
  moreover have "length clusterIndices \<le>
      unat (HASHTABLE_SIZE defaultConfig - MAX_PROBING_ATTEMPTS defaultConfig)"
    by (simp add: clusterIndices_def defaultConfig_def)
  moreover have "distinct clusterIndices" "1280 \<in> set clusterIndices"
    by (simp_all add: clusterIndices_def)
  ultimately show ?thesis by blast
qed

section \<open>Properties of the brick resolver\<close>

subsection \<open>The loop over the lower resolutions of an empty brick\<close>

lemma lowResLoop_done:
  "\<not> l < LEVEL_COUNT c \<Longrightarrow> lowResLoop c fl p bm la l (bc, st, lod) = (bc, st, lod)"
  by (subst lowResLoop.simps) simp

lemma lowResLoop_stop:
  "l < LEVEL_COUNT c \<Longrightarrow> brickInfoAt fl p bm la l \<noteq> BI_CHILD_EMPTY
   \<Longrightarrow> lowResLoop c fl p bm la l (bc, st, lod) = (bc, st, lod)"
  by (subst lowResLoop.simps) (simp add: brickInfoAt_def Let_def)

lemma lowResLoop_adopt:
  "l < LEVEL_COUNT c \<Longrightarrow> brickInfoAt fl p bm la l = BI_CHILD_EMPTY
   \<Longrightarrow> lowResLoop c fl p bm la l (bc, st, lod) =
       lowResLoop c fl p bm la (l + 1) (computeBrickCoords fl p la l, BI_CHILD_EMPTY, l)"
  by (subst lowResLoop.simps) (simp add: brickInfoAt_def Let_def)

text \<open>What the loop over the lower resolutions returns: either nothing was adopted,
  or the levels from the first one tried up to the returned one are all
  child-empty and the next one is not.\<close>

lemma lowResLoop_result:
  "lowResLoop c fl p bm la l (bc, st, lod) = (bc', st', lod') \<Longrightarrow>
   (lod' = lod \<and> bc' = bc \<and> st' = st \<and>
      (l < LEVEL_COUNT c \<longrightarrow> brickInfoAt fl p bm la l \<noteq> BI_CHILD_EMPTY)) \<or>
   (l \<le> lod' \<and> lod' < LEVEL_COUNT c \<and> st' = BI_CHILD_EMPTY \<and>
      bc' = computeBrickCoords fl p la lod' \<and>
      (\<forall>L. l \<le> L \<and> L \<le> lod' \<longrightarrow> brickInfoAt fl p bm la L = BI_CHILD_EMPTY) \<and>
      (lod' + 1 < LEVEL_COUNT c \<longrightarrow> brickInfoAt fl p bm la (lod' + 1) \<noteq> BI_CHILD_EMPTY))"
proof (induction c fl p bm la l "(bc, st, lod)" arbitrary: bc st lod rule: lowResLoop.induct)
  case (1 c fl p bm la l bc st lod)
  show ?case
  proof (cases "l < LEVEL_COUNT c")
    case False
    with "1.prems" show ?thesis by (simp add: lowResLoop_done)
  next
    case True
    show ?thesis
    proof (cases "brickInfoAt fl p bm la l = BI_CHILD_EMPTY")
      case False
      with True "1.prems" show ?thesis by (simp add: lowResLoop_stop)
    next
      case ce: True
      let ?bc = "computeBrickCoords fl p la l"
      from "1.prems" lowResLoop_adopt[OF True ce]
      have run: "lowResLoop c fl p bm la (l + 1) (?bc, BI_CHILD_EMPTY, l) = (bc', st', lod')"
        by simp
      have ce': "bm (getBrickIndex ?bc la) = BI_CHILD_EMPTY"
        using ce by (simp add: brickInfoAt_def)
      from "1.hyps"[OF True refl refl refl ce' run[unfolded ce'[symmetric]]] 
      have ih: "(lod' = l \<and> bc' = ?bc \<and> st' = BI_CHILD_EMPTY \<and>
          (l + 1 < LEVEL_COUNT c \<longrightarrow> brickInfoAt fl p bm la (l + 1) \<noteq> BI_CHILD_EMPTY)) \<or>
        (l + 1 \<le> lod' \<and> lod' < LEVEL_COUNT c \<and> st' = BI_CHILD_EMPTY \<and>
          bc' = computeBrickCoords fl p la lod' \<and>
          (\<forall>L. l + 1 \<le> L \<and> L \<le> lod' \<longrightarrow> brickInfoAt fl p bm la L = BI_CHILD_EMPTY) \<and>
          (lod' + 1 < LEVEL_COUNT c \<longrightarrow> brickInfoAt fl p bm la (lod' + 1) \<noteq> BI_CHILD_EMPTY))"
        using ce' by simp
      then show ?thesis
      proof
        assume a: "lod' = l \<and> bc' = ?bc \<and> st' = BI_CHILD_EMPTY \<and>
          (l + 1 < LEVEL_COUNT c \<longrightarrow> brickInfoAt fl p bm la (l + 1) \<noteq> BI_CHILD_EMPTY)"
        have "\<forall>L. l \<le> L \<and> L \<le> lod' \<longrightarrow> brickInfoAt fl p bm la L = BI_CHILD_EMPTY"
          using a ce by auto
        with a True show ?thesis by auto
      next
        assume b: "l + 1 \<le> lod' \<and> lod' < LEVEL_COUNT c \<and> st' = BI_CHILD_EMPTY \<and>
          bc' = computeBrickCoords fl p la lod' \<and>
          (\<forall>L. l + 1 \<le> L \<and> L \<le> lod' \<longrightarrow> brickInfoAt fl p bm la L = BI_CHILD_EMPTY) \<and>
          (lod' + 1 < LEVEL_COUNT c \<longrightarrow> brickInfoAt fl p bm la (lod' + 1) \<noteq> BI_CHILD_EMPTY)"
        then have le: "l \<le> lod'" using word_succ_le[OF True] by blast
        have "\<forall>L. l \<le> L \<and> L \<le> lod' \<longrightarrow> brickInfoAt fl p bm la L = BI_CHILD_EMPTY"
        proof (intro allI impI)
          fix L assume L: "l \<le> L \<and> L \<le> lod'"
          with word_le_succ_cases[OF True, of L] have "L = l \<or> l + 1 \<le> L" by simp
          then show "brickInfoAt fl p bm la L = BI_CHILD_EMPTY"
            using ce b L by auto
        qed
        with b le show ?thesis by blast
      qed
    qed
  qed
qed

lemma lowResLoop_bound:
  assumes "lod < LEVEL_COUNT c"
  shows "snd (snd (lowResLoop c fl p bm la l (bc, st, lod))) < LEVEL_COUNT c"
proof -
  obtain bc' st' lod' where r: "lowResLoop c fl p bm la l (bc, st, lod) = (bc', st', lod')"
    by (cases "lowResLoop c fl p bm la l (bc, st, lod)") auto
  from lowResLoop_result[OF r] assms have "lod' < LEVEL_COUNT c" by auto
  with r show ?thesis by simp
qed


subsection \<open>The loop that looks for a lower resolution\<close>

lemma lookForLowerResUpTo_Some:
  "lookForLowerResUpTo n fl p bm la lod bi = Some r \<Longrightarrow>
   lookForLowerRes fl p bm la lod bi = Some r"
proof (induction n arbitrary: lod bi)
  case 0
  then show ?case by simp
next
  case (Suc n)
  let ?bc = "computeBrickCoords fl p la (lod + 1)"
  show ?case
  proof (cases "bm (getBrickIndex ?bc la) = BI_MISSING")
    case True
    with Suc.prems have "lookForLowerResUpTo n fl p bm la (lod + 1) (getBrickIndex ?bc la) = Some r"
      by (simp add: Let_def)
    then have "lookForLowerRes fl p bm la (lod + 1) (getBrickIndex ?bc la) = Some r"
      by (rule Suc.IH)
    with True show ?thesis
      by (subst lookForLowerRes.simps) (simp add: Let_def)
  next
    case False
    with Suc.prems show ?thesis
      by (subst lookForLowerRes.simps) (simp add: Let_def)
  qed
qed

lemma word_succ_facts:
  fixes l t :: uint
  assumes "l < t"
  shows "unat (l + 1) = Suc (unat l)" and "l < l + 1" and "l + 1 \<le> t"
  using assms by unat_arith+

lemma lookForLowerResUpTo_reaches:
  assumes "brickInfoAt fl p bm la t \<noteq> BI_MISSING" and "lod < t" and "unat t - unat lod \<le> n"
  shows "\<exists>lod' bi' last.
           lookForLowerResUpTo n fl p bm la lod bi =
             Some (lod', computeBrickCoords fl p la lod',
                   bi', brickInfoAt fl p bm la lod', last) \<and>
           lod < lod' \<and> lod' \<le> t \<and> brickInfoAt fl p bm la lod' \<noteq> BI_MISSING"
  using assms
proof (induction n arbitrary: lod bi)
  case 0
  then have "unat lod < unat t" by (simp add: word_less_nat_alt)
  with 0 show ?case by simp
next
  case (Suc n)
  note s = word_succ_facts[OF Suc.prems(2)]
  let ?bc = "computeBrickCoords fl p la (lod + 1)"
  show ?case
  proof (cases "brickInfoAt fl p bm la (lod + 1) = BI_MISSING")
    case False
    then have "lookForLowerResUpTo (Suc n) fl p bm la lod bi =
        Some (lod + 1, ?bc, getBrickIndex ?bc la, brickInfoAt fl p bm la (lod + 1), bi)"
      by (simp add: Let_def brickInfoAt_def)
    with False s show ?thesis by blast
  next
    case True
    with Suc.prems(1) have "lod + 1 \<noteq> t" by auto
    with s(3) have lt: "lod + 1 < t" by simp
    from Suc.prems(3) s(1) have "unat t - unat (lod + 1) \<le> n" by simp
    from Suc.IH[OF Suc.prems(1) lt this, of "getBrickIndex ?bc la"]
    obtain lod' bi' last where
      r: "lookForLowerResUpTo n fl p bm la (lod + 1) (getBrickIndex ?bc la) =
             Some (lod', computeBrickCoords fl p la lod', bi', brickInfoAt fl p bm la lod', last)"
      and b: "lod + 1 < lod'" "lod' \<le> t" "brickInfoAt fl p bm la lod' \<noteq> BI_MISSING"
      by blast
    from True r have "lookForLowerResUpTo (Suc n) fl p bm la lod bi =
        Some (lod', computeBrickCoords fl p la lod', bi', brickInfoAt fl p bm la lod', last)"
      by (simp add: Let_def brickInfoAt_def)
    moreover from s(2) b(1) have "lod < lod'" by simp
    ultimately show ?thesis using b by blast
  qed
qed

lemma coarsest_level:
  fixes l n :: uint
  assumes "l < n"
  shows "l \<le> n - 1" and "unat (n - 1) - unat l = unat n - unat l - 1"
  using assms by unat_arith+


lemma lookForLowerRes_result:
  assumes "lookForLowerRes fl p bm la lod bi = Some res"
  shows "case res of (lod', bc, bi', st, lbi) \<Rightarrow>
           st = brickInfoAt fl p bm la lod' \<and> st \<noteq> BI_MISSING \<and>
           bc = computeBrickCoords fl p la lod'"
proof (rule lookForLowerRes.raw_induct[where P = "\<lambda>fl p bm la lod bi res.
           case res of (lod', bc, bi', st, lbi) \<Rightarrow>
             st = brickInfoAt fl p bm la lod' \<and> st \<noteq> BI_MISSING \<and>
             bc = computeBrickCoords fl p la lod'", OF _ assms])
  fix f :: "'a FloatOps \<Rightarrow> 'a \<Rightarrow> buffer \<Rightarrow> (uint \<Rightarrow> 'a LevelData) \<Rightarrow> uint \<Rightarrow> uint
              \<Rightarrow> (uint \<times> uint4 \<times> uint \<times> uint \<times> uint) option"
  fix fl p bm la lod bi res
  assume ih: "\<And>fl p bm la lod bi y. f fl p bm la lod bi = Some y \<Longrightarrow>
           (case y of (lod', bc, bi', st, lbi) \<Rightarrow>
             st = brickInfoAt fl p bm la lod' \<and> st \<noteq> BI_MISSING \<and>
             bc = computeBrickCoords fl p la lod')"
  assume body: "(let lastBrickIndex = bi; lod' = lod + 1;
          brickCoords = computeBrickCoords fl p la lod';
          brickIdx' = getBrickIndex brickCoords la;
          brickInf = bm brickIdx'
      in if brickInf = BI_MISSING then f fl p bm la lod' brickIdx'
         else Some (lod', brickCoords, brickIdx', brickInf, lastBrickIndex)) = Some res"
  show "case res of (lod', bc, bi', st, lbi) \<Rightarrow>
           st = brickInfoAt fl p bm la lod' \<and> st \<noteq> BI_MISSING \<and>
           bc = computeBrickCoords fl p la lod'"
  proof (cases "bm (getBrickIndex (computeBrickCoords fl p la (lod + 1)) la) = BI_MISSING")
    case True
    with body have "f fl p bm la (lod + 1)
        (getBrickIndex (computeBrickCoords fl p la (lod + 1)) la) = Some res"
      by (simp add: Let_def)
    then show ?thesis by (rule ih)
  next
    case False
    with body show ?thesis
      by (auto simp add: Let_def brickInfoAt_def)
  qed
qed


subsection \<open>The small hierarchy\<close>

lemma example_state:
  "brickInfoAt exampleOps (clampUnit exampleOps 600) m exampleLevels 0 = m 4"
  "brickInfoAt exampleOps (clampUnit exampleOps 600) m exampleLevels 1 = m 10"
  "brickInfoAt exampleOps (clampUnit exampleOps 600) m exampleLevels 2 = m 13"
  "brickInfoAt exampleOps (clampUnit exampleOps 600) m exampleLevels 3 = m 14"
  by (simp_all add: brickInfoAt_def computeBrickCoords_def exampleOps_def exampleLevels_def)

lemma example_run:
  "getBrick exampleConfig exampleOps 600 0 0 (0, 1000) emptyRegionMeta exampleLevels
     hashBuffer False =
   Some (emptyRegionResult, hashBuffer)"
  by (simp add: getBrick_def computeBrickCoords_def exampleOps_def exampleLevels_def
        exampleConfig_def emptyRegionMeta_def emptyRegionResult_def lowResLoop.simps Let_def
        BI_MISSING_def BI_EMPTY_def BI_CHILD_EMPTY_def)

subsection \<open>Results of getBrick\<close>

text \<open>
  Claim C1. Let the requested level be a level of the hierarchy. If the brick of
  the clamped entry position at the requested level is missing, requests are
  allowed, and the brick of that position at the coarsest level
  \<open>LEVEL_COUNT - 1\<close> is not missing, then \<open>getBrick\<close> returns; the do-while loop
  ends within \<open>LEVEL_COUNT - iLOD - 1\<close> iterations; the returned level is at most
  the coarsest one and the substitute flag is set.
\<close>

theorem getBrick_missing_terminates:
  assumes valid: "iLOD < LEVEL_COUNT c"
    and missing: "brickInfoAt fl (clampUnit fl p) brickMeta levelArray iLOD = BI_MISSING"
    and request: "\<not> dontRequest"
    and coarsest: "brickInfoAt fl (clampUnit fl p) brickMeta levelArray (LEVEL_COUNT c - 1)
                     \<noteq> BI_MISSING"
  shows "\<exists>r hashBuffer' res.
           getBrick c fl p iLOD direction cubeBounds brickMeta levelArray hashBuffer dontRequest
             = Some (r, hashBuffer') \<and>
           LOD r \<le> LEVEL_COUNT c - 1 \<and> substitute r \<and>
           lookForLowerResUpTo (unat (LEVEL_COUNT c) - unat iLOD - 1) fl (clampUnit fl p)
               brickMeta levelArray iLOD
               (getBrickIndex (computeBrickCoords fl (clampUnit fl p) levelArray iLOD) levelArray)
             = Some res \<and>
           lookForLowerRes fl (clampUnit fl p) brickMeta levelArray iLOD
               (getBrickIndex (computeBrickCoords fl (clampUnit fl p) levelArray iLOD) levelArray)
             = Some res"
proof -
  let ?p = "clampUnit fl p"
  let ?t = "LEVEL_COUNT c - 1"
  let ?idx = "getBrickIndex (computeBrickCoords fl ?p levelArray iLOD) levelArray"
  let ?n = "unat (LEVEL_COUNT c) - unat iLOD - 1"
  note cl = coarsest_level[OF valid]
  from missing coarsest have "iLOD \<noteq> ?t" by auto
  with cl(1) have lt: "iLOD < ?t" by simp
  from cl(2) have n: "unat ?t - unat iLOD \<le> ?n" by simp
  from lookForLowerResUpTo_reaches[OF coarsest lt n, of ?idx]
  obtain lod' bi' last where
    up: "lookForLowerResUpTo ?n fl ?p brickMeta levelArray iLOD ?idx =
           Some (lod', computeBrickCoords fl ?p levelArray lod', bi',
                 brickInfoAt fl ?p brickMeta levelArray lod', last)"
    and b: "iLOD < lod'" "lod' \<le> ?t" "brickInfoAt fl ?p brickMeta levelArray lod' \<noteq> BI_MISSING"
    by blast
  let ?res = "(lod', computeBrickCoords fl ?p levelArray lod', bi',
                 brickInfoAt fl ?p brickMeta levelArray lod', last)"
  from up have loop: "lookForLowerRes fl ?p brickMeta levelArray iLOD ?idx = Some ?res"
    by (rule lookForLowerResUpTo_Some)
  have "?t < LEVEL_COUNT c" using valid by unat_arith
  with b(2) have lod'_lt: "lod' < LEVEL_COUNT c" by simp
  let ?low = "lowResLoop c fl ?p brickMeta levelArray (lod' + 1)
                (computeBrickCoords fl ?p levelArray lod',
                 brickInfoAt fl ?p brickMeta levelArray lod', lod')"
  from lowResLoop_bound[OF lod'_lt] have "snd (snd ?low) < LEVEL_COUNT c" .
  then have low: "snd (snd ?low) \<le> ?t" by (rule coarsest_level(1))
  from b(2) have lod'_le: "lod' \<le> ?t" .
  have "\<exists>r hashBuffer'.
           getBrick c fl p iLOD direction cubeBounds brickMeta levelArray hashBuffer dontRequest
             = Some (r, hashBuffer') \<and> LOD r \<le> ?t \<and> substitute r"
    using missing request loop low lod'_le
    by (auto simp add: getBrick_def cacheMiss_def Let_def brickInfoAt_def split: prod.splits)
  with up loop show ?thesis by blast
qed

theorem getBrick_missing_terminates_witness:
  "(0 :: uint) < LEVEL_COUNT exampleConfig \<and>
   brickInfoAt exampleOps (clampUnit exampleOps 600) missingFineMeta exampleLevels 0 = BI_MISSING \<and>
   brickInfoAt exampleOps (clampUnit exampleOps 600) missingFineMeta exampleLevels
      (LEVEL_COUNT exampleConfig - 1) \<noteq> BI_MISSING \<and>
   (\<exists>r hashBuffer' res.
      getBrick exampleConfig exampleOps 600 0 0 (0, 1000) missingFineMeta exampleLevels
          emptyTable False = Some (r, hashBuffer') \<and>
      LOD r \<le> LEVEL_COUNT exampleConfig - 1 \<and> substitute r \<and>
      lookForLowerResUpTo (unat (LEVEL_COUNT exampleConfig) - unat (0 :: uint) - 1) exampleOps
          (clampUnit exampleOps 600) missingFineMeta exampleLevels 0
          (getBrickIndex (computeBrickCoords exampleOps (clampUnit exampleOps 600)
             exampleLevels 0) exampleLevels) = Some res \<and>
      lookForLowerRes exampleOps (clampUnit exampleOps 600) missingFineMeta exampleLevels 0
          (getBrickIndex (computeBrickCoords exampleOps (clampUnit exampleOps 600)
             exampleLevels 0) exampleLevels) = Some res)"
proof -
  have valid: "(0 :: uint) < LEVEL_COUNT exampleConfig"
    by (simp add: exampleConfig_def)
  have missing: "brickInfoAt exampleOps (clampUnit exampleOps 600) missingFineMeta
                   exampleLevels 0 = BI_MISSING"
    by (simp add: example_state missingFineMeta_def)
  have coarsest: "brickInfoAt exampleOps (clampUnit exampleOps 600) missingFineMeta exampleLevels
      (LEVEL_COUNT exampleConfig - 1) \<noteq> BI_MISSING"
    by (simp add: exampleConfig_def example_state missingFineMeta_def BI_MISSING_def)
  have request: "\<not> False" by simp
  from getBrick_missing_terminates[OF valid missing request coarsest,
         of 0 "(0, 1000)" emptyTable] valid missing coarsest
  show ?thesis by blast
qed

text \<open>
  Claim C4. When \<open>getBrick\<close> returns an empty brick, let \<open>start\<close> be the level at
  which the emptiness test is made (the requested level, or the level found by
  the look for a lower resolution). A level other than \<open>start\<close> is returned only
  if its state is \<open>BI_CHILD_EMPTY\<close>; every level above \<open>start\<close> up to the returned
  one is \<open>BI_CHILD_EMPTY\<close>; and the level after the returned one, if it is below
  \<open>LEVEL_COUNT\<close>, is not.
\<close>

theorem getBrick_empty_ascension:
  assumes ret: "getBrick c fl p iLOD direction cubeBounds brickMeta levelArray hashBuffer dontRequest
             = Some (r, hashBuffer')"
    and emp: "empty r"
  shows "\<exists>start.
     (if \<not> dontRequest \<and> brickInfoAt fl (clampUnit fl p) brickMeta levelArray iLOD = BI_MISSING
      then \<exists>bc bi st lbi.
             lookForLowerRes fl (clampUnit fl p) brickMeta levelArray iLOD
               (getBrickIndex (computeBrickCoords fl (clampUnit fl p) levelArray iLOD) levelArray)
             = Some (start, bc, bi, st, lbi)
      else start = iLOD) \<and>
     brickInfoAt fl (clampUnit fl p) brickMeta levelArray start \<le> BI_EMPTY \<and>
     (LOD r \<noteq> start \<longrightarrow>
        brickInfoAt fl (clampUnit fl p) brickMeta levelArray (LOD r) = BI_CHILD_EMPTY) \<and>
     (\<forall>l. start < l \<and> l \<le> LOD r \<longrightarrow>
        brickInfoAt fl (clampUnit fl p) brickMeta levelArray l = BI_CHILD_EMPTY) \<and>
     (LOD r + 1 < LEVEL_COUNT c \<longrightarrow>
        brickInfoAt fl (clampUnit fl p) brickMeta levelArray (LOD r + 1) \<noteq> BI_CHILD_EMPTY)"
proof -
  let ?p = "clampUnit fl p"
  let ?state = "brickInfoAt fl ?p brickMeta levelArray"
  let ?idx = "getBrickIndex (computeBrickCoords fl ?p levelArray iLOD) levelArray"
  let ?miss = "\<not> dontRequest \<and> ?state iLOD = BI_MISSING"
  text \<open>The level, coordinates and state with which the emptiness test is reached.\<close>
  have "\<exists>start bc st.
      (if ?miss
       then \<exists>bi lbi. lookForLowerRes fl ?p brickMeta levelArray iLOD ?idx
                         = Some (start, bc, bi, st, lbi)
       else start = iLOD) \<and> st = ?state start \<and> st \<le> BI_EMPTY \<and>
      LOD r = snd (snd (lowResLoop c fl ?p brickMeta levelArray (start + 1) (bc, st, start)))"
  proof (cases ?miss)
    case False
    with ret emp have "?state iLOD \<le> BI_EMPTY"
      "LOD r = snd (snd (lowResLoop c fl ?p brickMeta levelArray (iLOD + 1)
                 (computeBrickCoords fl ?p levelArray iLOD, ?state iLOD, iLOD)))"
      by (auto simp add: getBrick_def Let_def brickInfoAt_def split: prod.splits if_splits)
    with False show ?thesis
      by (rule_tac x = iLOD in exI,
          rule_tac x = "computeBrickCoords fl ?p levelArray iLOD" in exI,
          rule_tac x = "?state iLOD" in exI) auto
  next
    case True
    with ret obtain hb1 start bc st where
      cm: "cacheMiss c fl ?p brickMeta levelArray hashBuffer iLOD ?idx = Some (hb1, start, bc, st)"
      by (auto simp add: getBrick_def Let_def brickInfoAt_def split: option.splits)
    then obtain bi lbi where
      loop: "lookForLowerRes fl ?p brickMeta levelArray iLOD ?idx = Some (start, bc, bi, st, lbi)"
      by (auto simp add: cacheMiss_def Let_def split: option.splits)
    from lookForLowerRes_result[OF loop] have st: "st = ?state start" by simp
    from ret emp True cm have "st \<le> BI_EMPTY"
      "LOD r = snd (snd (lowResLoop c fl ?p brickMeta levelArray (start + 1) (bc, st, start)))"
      by (auto simp add: getBrick_def Let_def brickInfoAt_def split: prod.splits if_splits)
    with True loop st show ?thesis by auto
  qed
  then obtain start bc st where
    path: "if ?miss
       then \<exists>bi lbi. lookForLowerRes fl ?p brickMeta levelArray iLOD ?idx
                         = Some (start, bc, bi, st, lbi)
       else start = iLOD"
    and st: "st = ?state start" "st \<le> BI_EMPTY"
    and lod: "LOD r = snd (snd (lowResLoop c fl ?p brickMeta levelArray (start + 1) (bc, st, start)))"
    by blast
  obtain bc' st' lod' where
    run: "lowResLoop c fl ?p brickMeta levelArray (start + 1) (bc, st, start) = (bc', st', lod')"
    by (cases "lowResLoop c fl ?p brickMeta levelArray (start + 1) (bc, st, start)") auto
  with lod have r: "LOD r = lod'" by simp
  from lowResLoop_result[OF run]
  have asc: "(LOD r \<noteq> start \<longrightarrow> ?state (LOD r) = BI_CHILD_EMPTY) \<and>
     (\<forall>l. start < l \<and> l \<le> LOD r \<longrightarrow> ?state l = BI_CHILD_EMPTY) \<and>
     (LOD r + 1 < LEVEL_COUNT c \<longrightarrow> ?state (LOD r + 1) \<noteq> BI_CHILD_EMPTY)"
  proof
    assume "lod' = start \<and> bc' = bc \<and> st' = st \<and>
      (start + 1 < LEVEL_COUNT c \<longrightarrow> ?state (start + 1) \<noteq> BI_CHILD_EMPTY)"
    with r show ?thesis by auto
  next
    assume b: "start + 1 \<le> lod' \<and> lod' < LEVEL_COUNT c \<and> st' = BI_CHILD_EMPTY \<and>
      bc' = computeBrickCoords fl ?p levelArray lod' \<and>
      (\<forall>L. start + 1 \<le> L \<and> L \<le> lod' \<longrightarrow> ?state L = BI_CHILD_EMPTY) \<and>
      (lod' + 1 < LEVEL_COUNT c \<longrightarrow> ?state (lod' + 1) \<noteq> BI_CHILD_EMPTY)"
    then have "?state lod' = BI_CHILD_EMPTY" by auto
    moreover have "\<forall>l. start < l \<and> l \<le> lod' \<longrightarrow> ?state l = BI_CHILD_EMPTY"
      using b inc_le by blast
    ultimately show ?thesis using b r by simp
  qed
  have path': "if ?miss
       then \<exists>bc bi st lbi. lookForLowerRes fl ?p brickMeta levelArray iLOD ?idx
                         = Some (start, bc, bi, st, lbi)
       else start = iLOD"
  proof (cases ?miss)
    case True
    from path have "\<exists>bi lbi. lookForLowerRes fl ?p brickMeta levelArray iLOD ?idx
                         = Some (start, bc, bi, st, lbi)"
      unfolding if_P[OF True] .
    then have "\<exists>bc bi st lbi. lookForLowerRes fl ?p brickMeta levelArray iLOD ?idx
                         = Some (start, bc, bi, st, lbi)"
      by blast
    then show ?thesis unfolding if_P[OF True] .
  next
    case False
    from path show ?thesis unfolding if_not_P[OF False] .
  qed
  from st have "?state start \<le> BI_EMPTY" by simp
  with path' asc show ?thesis by blast
qed

theorem getBrick_empty_ascension_witness:
  "getBrick exampleConfig exampleOps 600 0 0 (0, 1000) emptyRegionMeta exampleLevels
       emptyTable False = Some (emptyRegionResult, emptyTable) \<and>
   empty emptyRegionResult \<and>
   (\<exists>start.
     (if \<not> False \<and>
         brickInfoAt exampleOps (clampUnit exampleOps 600) emptyRegionMeta exampleLevels 0
           = BI_MISSING
      then \<exists>bc bi st lbi.
             lookForLowerRes exampleOps (clampUnit exampleOps 600) emptyRegionMeta exampleLevels 0
               (getBrickIndex (computeBrickCoords exampleOps (clampUnit exampleOps 600)
                  exampleLevels 0) exampleLevels)
             = Some (start, bc, bi, st, lbi)
      else start = 0) \<and>
     brickInfoAt exampleOps (clampUnit exampleOps 600) emptyRegionMeta exampleLevels start
       \<le> BI_EMPTY \<and>
     (LOD emptyRegionResult \<noteq> start \<longrightarrow>
        brickInfoAt exampleOps (clampUnit exampleOps 600) emptyRegionMeta exampleLevels
          (LOD emptyRegionResult) = BI_CHILD_EMPTY) \<and>
     (\<forall>l. start < l \<and> l \<le> LOD emptyRegionResult \<longrightarrow>
        brickInfoAt exampleOps (clampUnit exampleOps 600) emptyRegionMeta exampleLevels l
          = BI_CHILD_EMPTY) \<and>
     (LOD emptyRegionResult + 1 < LEVEL_COUNT exampleConfig \<longrightarrow>
        brickInfoAt exampleOps (clampUnit exampleOps 600) emptyRegionMeta exampleLevels
          (LOD emptyRegionResult + 1) \<noteq> BI_CHILD_EMPTY))"
proof -
  have ret: "getBrick exampleConfig exampleOps 600 0 0 (0, 1000) emptyRegionMeta exampleLevels
       emptyTable False = Some (emptyRegionResult, emptyTable)"
    by (rule example_run)
  have emp: "empty emptyRegionResult"
    by (simp add: emptyRegionResult_def)
  from getBrick_empty_ascension[OF ret emp] ret emp show ?thesis by blast
qed

text \<open>
  Claim C9. With \<open>dontRequest\<close> set and the brick at the requested level missing,
  \<open>getBrick\<close> returns with the hash buffer as it was, does not look for a lower
  resolution (the returned level is the one the loop over the empty lower
  resolutions yields from the requested level), and reports the brick as empty
  and as a substitute, without pool information.
\<close>

theorem getBrick_dontRequest_missing:
  assumes "brickInfoAt fl (clampUnit fl p) brickMeta levelArray iLOD = BI_MISSING"
  shows "\<exists>r. getBrick c fl p iLOD direction cubeBounds brickMeta levelArray hashBuffer True
               = Some (r, hashBuffer) \<and>
             empty r \<and> substitute r \<and> poolBrickInfo r = None \<and>
             brickIndex r =
               getBrickIndex (computeBrickCoords fl (clampUnit fl p) levelArray iLOD) levelArray \<and>
             LOD r = snd (snd (lowResLoop c fl (clampUnit fl p) brickMeta levelArray (iLOD + 1)
                       (computeBrickCoords fl (clampUnit fl p) levelArray iLOD, BI_MISSING, iLOD)))"
  using assms
  by (simp add: getBrick_def brickInfoAt_def Let_def BI_MISSING_def BI_EMPTY_def
           split: prod.splits)


theorem getBrick_dontRequest_missing_witness:
  "brickInfoAt exampleOps (clampUnit exampleOps 600) missingFineMeta exampleLevels 0 = BI_MISSING \<and>
   (\<exists>r. getBrick exampleConfig exampleOps 600 0 0 (0, 1000) missingFineMeta exampleLevels
             emptyTable True = Some (r, emptyTable) \<and>
        empty r \<and> substitute r \<and> poolBrickInfo r = None \<and>
        brickIndex r =
          getBrickIndex (computeBrickCoords exampleOps (clampUnit exampleOps 600)
             exampleLevels 0) exampleLevels \<and>
        LOD r = snd (snd (lowResLoop exampleConfig exampleOps (clampUnit exampleOps 600)
                  missingFineMeta exampleLevels (0 + 1)
                  (computeBrickCoords exampleOps (clampUnit exampleOps 600) exampleLevels 0,
                   BI_MISSING, 0))))"
proof -
  have missing: "brickInfoAt exampleOps (clampUnit exampleOps 600) missingFineMeta
                   exampleLevels 0 = BI_MISSING"
    by (simp add: example_state missingFineMeta_def)
  from getBrick_dontRequest_missing[OF missing, of exampleConfig 0 "(0, 1000)"
         emptyTable] missing
  show ?thesis by blast
qed

text \<open>
  Claim C3, as amended. Whenever \<open>getBrick\<close> returns, the substitute flag is set
  exactly when the state of the brick at the requested level is \<open>BI_MISSING\<close>.
\<close>

theorem getBrick_substitute:
  assumes "getBrick c fl p iLOD direction cubeBounds brickMeta levelArray hashBuffer dontRequest
             = Some (r, hashBuffer')"
  shows "substitute r \<longleftrightarrow> brickInfoAt fl (clampUnit fl p) brickMeta levelArray iLOD = BI_MISSING"
  using assms
  by (auto simp add: getBrick_def brickInfoAt_def Let_def split: prod.splits option.splits if_splits)

theorem getBrick_substitute_witness:
  "getBrick exampleConfig exampleOps 600 0 0 (0, 1000) emptyRegionMeta exampleLevels
       emptyTable False = Some (emptyRegionResult, emptyTable) \<and>
   (substitute emptyRegionResult \<longleftrightarrow>
      brickInfoAt exampleOps (clampUnit exampleOps 600) emptyRegionMeta exampleLevels 0
        = BI_MISSING)"
proof -
  have ret: "getBrick exampleConfig exampleOps 600 0 0 (0, 1000) emptyRegionMeta exampleLevels
       emptyTable False = Some (emptyRegionResult, emptyTable)"
    by (rule example_run)
  from getBrick_substitute[OF ret] ret show ?thesis by blast
qed

text \<open>
  Claim C3 as stated fails: a brick that is empty at the requested level is not
  resident, and the substitute flag is not set.
\<close>

theorem getBrick_substitute_counterexample:
  "brickInfoAt exampleOps (clampUnit exampleOps 600) emptyRegionMeta exampleLevels 0 = BI_EMPTY \<and>
   map_option (substitute \<circ> fst)
     (getBrick exampleConfig exampleOps 600 0 0 (0, 1000) emptyRegionMeta exampleLevels
        emptyTable False) = Some False"
  by (simp add: example_state example_run emptyRegionMeta_def emptyRegionResult_def)

section \<open>Properties of the brick addressing in single precision\<close>

subsection \<open>Exponents and rounding to an integer\<close>










subsection \<open>Rounding keeps the order with single-precision values\<close>



lemma pow2_pos: "0 < (2::rat) powi e"
  by simp





subsection \<open>One axis\<close>






end
